theory Spec2Isabelle
  imports Main
begin

section \<open>Go library functions used by the proxy\<close>

text \<open>
  A Go \<open>string\<close> or \<open>[]byte\<close> is a sequence of bytes: a \<open>char list\<close>. The functions of
  package \<open>strings\<close> below are modelled on bytes. \<open>strings.ToLower\<close>, \<open>strings.ToUpper\<close>
  and \<open>strings.TrimSpace\<close> work on UTF-8 code points in Go; on ASCII text, which is what
  HTTP methods, header names and host names are, they do what is written here: letters
  \<open>A\<close> to \<open>Z\<close> and \<open>a\<close> to \<open>z\<close> change case, and the white space is tab, line feed,
  vertical tab, form feed, carriage return and space. Bytes from 128 on are left as they are.
\<close>

definition upper_letters :: string where
  "upper_letters = ''ABCDEFGHIJKLMNOPQRSTUVWXYZ''"

definition lower_letters :: string where
  "lower_letters = ''abcdefghijklmnopqrstuvwxyz''"

definition toLower_byte :: "char \<Rightarrow> char" where
  "toLower_byte c =
     (case map_of (zip upper_letters lower_letters) c of Some d \<Rightarrow> d | None \<Rightarrow> c)"

definition toUpper_byte :: "char \<Rightarrow> char" where
  "toUpper_byte c =
     (case map_of (zip lower_letters upper_letters) c of Some d \<Rightarrow> d | None \<Rightarrow> c)"

definition ToLower :: "string \<Rightarrow> string" where
  "ToLower s = map toLower_byte s"

definition ToUpper :: "string \<Rightarrow> string" where
  "ToUpper s = map toUpper_byte s"

definition is_space :: "char \<Rightarrow> bool" where
  "is_space c \<longleftrightarrow> c \<in> set [CHR 0x09, CHR 0x0A, CHR 0x0B, CHR 0x0C, CHR 0x0D, CHR '' '']"

definition TrimSpace :: "string \<Rightarrow> string" where
  "TrimSpace s = rev (dropWhile is_space (rev (dropWhile is_space s)))"

text \<open>\<open>strings.TrimRight(s, cutset)\<close> removes every trailing byte that is in \<open>cutset\<close>.\<close>

definition TrimRight :: "string \<Rightarrow> string \<Rightarrow> string" where
  "TrimRight s cutset = rev (dropWhile (\<lambda>c. c \<in> set cutset) (rev s))"

definition HasPrefix :: "string \<Rightarrow> string \<Rightarrow> bool" where
  "HasPrefix s p \<longleftrightarrow> take (length p) s = p"

definition HasSuffix :: "string \<Rightarrow> string \<Rightarrow> bool" where
  "HasSuffix s p \<longleftrightarrow> length p \<le> length s \<and> drop (length s - length p) s = p"

text \<open>
  \<open>strings.Index(s, sep)\<close> for a separator of one byte: the index of its first occurrence,
  or \<open>-1\<close>.
\<close>

definition Index :: "string \<Rightarrow> char \<Rightarrow> int" where
  "Index s sep = (if sep \<in> set s then int (length (takeWhile (\<lambda>c. c \<noteq> sep) s)) else - 1)"

text \<open>
  \<open>strings.SplitN(s, sep, n)\<close> for a separator of one byte and \<open>n \<ge> 0\<close>: at most \<open>n\<close>
  pieces, the last one being the rest of the string, unsplit.
\<close>

fun SplitN :: "string \<Rightarrow> char \<Rightarrow> nat \<Rightarrow> string list" where
  "SplitN s sep 0 = []"
| "SplitN s sep (Suc 0) = [s]"
| "SplitN s sep (Suc (Suc n)) =
     (if sep \<in> set s
      then takeWhile (\<lambda>c. c \<noteq> sep) s # SplitN (tl (dropWhile (\<lambda>c. c \<noteq> sep) s)) sep (Suc n)
      else [s])"

text \<open>\<open>strings.Split(s, sep)\<close> for a separator of one byte: all the pieces.\<close>

fun Split :: "string \<Rightarrow> char \<Rightarrow> string list" where
  "Split [] sep = [Nil]"
| "Split (c # cs) sep =
     (if c = sep then [] # Split cs sep
      else (case Split cs sep of [] \<Rightarrow> [c # Nil] | p # ps \<Rightarrow> (c # p) # ps))"

fun Join :: "string list \<Rightarrow> string \<Rightarrow> string" where
  "Join [] sep = []"
| "Join [p] sep = p"
| "Join (p # q # ps) sep = p @ sep @ Join (q # ps) sep"

text \<open>
  \<open>strconv.Atoi\<close>: an optional sign, then one or more decimal digits and nothing else; the
  value has to fit Go's \<open>int\<close> (64 bits on the platforms the proxy is built for). \<open>None\<close>
  is the error.
\<close>

definition digit_val :: "char \<Rightarrow> int option" where
  "digit_val c = map_of (zip ''0123456789'' [0, 1, 2, 3, 4, 5, 6, 7, 8, 9]) c"

fun digits_val :: "string \<Rightarrow> int \<Rightarrow> int option" where
  "digits_val [] acc = Some acc"
| "digits_val (c # cs) acc =
     (case digit_val c of None \<Rightarrow> None | Some d \<Rightarrow> digits_val cs (10 * acc + d))"

definition Atoi :: "string \<Rightarrow> int option" where
  "Atoi s =
     (let neg = (s \<noteq> [] \<and> hd s = CHR ''-'');
          ds = (if s \<noteq> [] \<and> (hd s = CHR ''+'' \<or> hd s = CHR ''-'') then tl s else s)
      in if ds = [] then None
         else (case digits_val ds 0 of
                 None \<Rightarrow> None
               | Some n \<Rightarrow>
                   (let v = (if neg then - n else n)
                    in if - (2 ^ 63) \<le> v \<and> v \<le> 2 ^ 63 - 1 then Some v else None)))"

text \<open>
  \<open>fmt.Sprintf("%d", n)\<close>: the decimal digits of \<open>n\<close>, after a minus sign when \<open>n\<close> is
  negative.
\<close>

fun nat_digits :: "nat \<Rightarrow> string" where
  "nat_digits n =
     (if n < 10 then [''0123456789'' ! n] else nat_digits (n div 10) @ [''0123456789'' ! (n mod 10)])"

definition Itoa :: "int \<Rightarrow> string" where
  "Itoa n = (if n < 0 then CHR ''-'' # nat_digits (nat (- n)) else nat_digits (nat n))"

text \<open>
  A \<open>bufio.Reader\<close> is the sequence of bytes that it will still deliver before its source
  ends (or times out). \<open>ReadString('\n')\<close> returns the bytes up to and with the first line
  feed; when the source ends before a line feed it returns an error, here \<open>None\<close>.
  \<open>io.ReadFull\<close> returns \<open>n\<close> bytes, or an error when fewer are left.
\<close>

definition ReadString :: "string \<Rightarrow> (string \<times> string) option" where
  "ReadString r =
     (if CHR 0x0A \<in> set r
      then Some (takeWhile (\<lambda>c. c \<noteq> CHR 0x0A) r @ [CHR 0x0A],
                 tl (dropWhile (\<lambda>c. c \<noteq> CHR 0x0A) r))
      else None)"

definition ReadFull :: "string \<Rightarrow> nat \<Rightarrow> (string \<times> string) option" where
  "ReadFull r n = (if n \<le> length r then Some (take n r, drop n r) else None)"

text \<open>
  \<open>net/url\<close> is not part of the repository. The proxy reads four things of a parsed URL:
  \<open>Hostname()\<close>, \<open>Port()\<close>, \<open>Path\<close> and \<open>RawQuery\<close>. The functions of the proxy that call
  \<open>url.Parse\<close> take it as their first argument, a function from the text to these four
  strings, or \<open>None\<close> for an error; what is proved about them holds for every such function.
\<close>

record URL =
  Hostname :: string
  PortStr :: string
  Path :: string
  RawQuery :: string

text \<open>
  For concrete runs: what \<open>url.Parse\<close> returns on a plain URL
  \<open>scheme://host[:port][/path][?query]\<close> with none of the bytes \<open>#\<close>, \<open>@\<close>, \<open>[\<close>, \<open>]\<close>, no
  space or control byte, no \<open>%\<close> in the host, and digits only for the port. \<open>Path\<close> is the
  path with its percent escapes decoded, as in Go; \<open>RawQuery\<close> is the query as it is
  written. Texts of another shape are not used in the concrete runs and are answered with
  \<open>None\<close> here.
\<close>

definition hex_val :: "char \<Rightarrow> nat option" where
  "hex_val c =
     map_of (zip ''0123456789abcdefABCDEF''
               [0, 1, 2, 3, 4, 5, 6, 7, 8, 9, 10, 11, 12, 13, 14, 15, 10, 11, 12, 13, 14, 15]) c"

fun unescape_path :: "string \<Rightarrow> string option" where
  "unescape_path [] = Some []"
| "unescape_path (c # cs) =
     (if c = CHR ''%'' then
        (case cs of
           h1 # h2 # rest \<Rightarrow>
             (case (hex_val h1, hex_val h2, unescape_path rest) of
                (Some a, Some b, Some r) \<Rightarrow> Some (char_of (16 * a + b) # r)
              | _ \<Rightarrow> None)
         | _ \<Rightarrow> None)
      else map_option ((#) c) (unescape_path cs))"

definition plain_url_Parse :: "string \<Rightarrow> URL option" where
  "plain_url_Parse raw =
     (let rest = (if HasPrefix raw ''http://'' then drop 7 raw
                  else if HasPrefix raw ''https://'' then drop 8 raw else []);
          before_q = takeWhile (\<lambda>c. c \<noteq> CHR ''?'') rest;
          query = drop (length before_q + 1) rest;
          authority = takeWhile (\<lambda>c. c \<noteq> CHR ''/'') before_q;
          path = drop (length authority) before_q;
          host = takeWhile (\<lambda>c. c \<noteq> CHR '':'') authority;
          port = drop (length host + 1) authority
      in if \<not> (HasPrefix raw ''http://'' \<or> HasPrefix raw ''https://'') then None
         else if \<exists>c \<in> set raw. c \<in> set ''#@[] '' \<or> (of_char c :: nat) < 32 \<or> (of_char c :: nat) = 127
           then None
         else if host = [] \<or> CHR ''%'' \<in> set authority \<or> (\<exists>c \<in> set port. digit_val c = None)
           then None
         else (case unescape_path path of
                 None \<Rightarrow> None
               | Some p \<Rightarrow> Some \<lparr>Hostname = host, PortStr = port, Path = p, RawQuery = query\<rparr>))"

section \<open>The response cache (cache.go)\<close>

text \<open>
  A cached response. The Go struct keeps its headers in a \<open>map[string]string\<close>; the only
  thing the cache does with that map is to add up the lengths of its keys and values, so it
  is kept here as the list of its key/value pairs. \<open>LastAccessed\<close> is a time stamp; the clock
  is passed to the operations that read \<open>time.Now()\<close>.
\<close>

record CacheEntry =
  Headers_c :: "(string \<times> string) list"
  StatusCode :: int
  Body_c :: string
  LastAccessed :: nat
  Size :: int

text \<open>
  The map of the cache holds pointers, \<open>map[string]*CacheEntry\<close>: \<open>Put\<close> takes a pointer and
  stores it, \<open>Get\<close> hands the stored pointer out, and both write to the object behind it.
  The entry objects are therefore shared between the cache and its caller. They live in a
  heap, a function from addresses to objects, which every operation takes and returns; a
  pointer is an address. (\<open>nil\<close> is left out: \<open>Put\<close> dereferences its argument at once.)
\<close>

type_synonym entry_ptr = nat

type_synonym entry_heap = "entry_ptr \<Rightarrow> CacheEntry"

text \<open>
  The cache: the map from keys to entries, the LRU list (front = least recently used), the
  two bounds and the running total of the sizes. The sizes are byte counts of data held in
  memory, far below \<open>2^63\<close>, so \<open>int64\<close> arithmetic on them does not wrap and they are
  kept as \<open>int\<close>.
\<close>

record Cache =
  entries :: "string \<rightharpoonup> entry_ptr"
  accessOrder :: "string list"
  maxEntries :: int
  maxSize :: int
  currentSize :: int

definition NewCache :: "int \<Rightarrow> Cache" where
  "NewCache n =
     \<lparr>entries = Map.empty, accessOrder = [], maxEntries = n,
      maxSize = 100 * 1024 * 1024, currentSize = 0\<rparr>"

text \<open>\<open>len(c.entries)\<close>\<close>

definition len_entries :: "Cache \<Rightarrow> int" where
  "len_entries c = int (card (dom (entries c)))"

text \<open>The loop of \<open>removeFromOrder\<close> deletes the first occurrence of the key and stops.\<close>

definition removeFromOrder :: "string \<Rightarrow> Cache \<Rightarrow> Cache" where
  "removeFromOrder key c = c\<lparr>accessOrder := remove1 key (accessOrder c)\<rparr>"

definition moveToEnd :: "string \<Rightarrow> Cache \<Rightarrow> Cache" where
  "moveToEnd key c =
     (let c1 = removeFromOrder key c in c1\<lparr>accessOrder := accessOrder c1 @ [key]\<rparr>)"

text \<open>\<open>evictLRU\<close> reads \<open>entry.Size\<close> through the stored pointer.\<close>

definition evictLRU :: "entry_heap \<Rightarrow> Cache \<Rightarrow> Cache" where
  "evictLRU h c =
     (case accessOrder c of
        [] \<Rightarrow> c
      | key # rest \<Rightarrow>
          (let c1 = c\<lparr>accessOrder := rest\<rparr> in
           case entries c1 key of
             None \<Rightarrow> c1
           | Some entry \<Rightarrow>
               c1\<lparr>currentSize := currentSize c1 - Size (h entry),
                  entries := (entries c1)(key := None)\<rparr>))"

text \<open>
  \<open>Get\<close> returns the heap, the cache and the pointer found, if any. The time stamp is
  written to the object itself.
\<close>

definition Get ::
  "entry_heap \<Rightarrow> Cache \<Rightarrow> string \<Rightarrow> nat \<Rightarrow> entry_heap \<times> Cache \<times> entry_ptr option" where
  "Get h c key now =
     (case entries c key of
        None \<Rightarrow> (h, c, None)
      | Some entry \<Rightarrow>
          (h(entry := (h entry)\<lparr>LastAccessed := now\<rparr>), moveToEnd key c, Some entry))"

definition entry_size :: "CacheEntry \<Rightarrow> int" where
  "entry_size entry =
     int (length (Body_c entry)) +
     (\<Sum>(k, v) \<leftarrow> Headers_c entry. int (length k + length v))"

text \<open>
  The eviction loop of \<open>Put\<close>:
  \<^verbatim>\<open>for (len(c.entries) >= c.maxEntries || c.currentSize+entrySize > c.maxSize)
       && len(c.entries) > 0 { c.evictLRU() }\<close>
  Nothing in the loop bounds the number of rounds, so it is a partial function: \<open>None\<close>
  means that the loop never ends.
\<close>

definition evict_cond :: "int \<Rightarrow> Cache \<Rightarrow> bool" where
  "evict_cond entrySize c \<longleftrightarrow>
     (len_entries c \<ge> maxEntries c \<or> currentSize c + entrySize > maxSize c)
     \<and> len_entries c > 0"

partial_function (option) evict_loop :: "entry_heap \<Rightarrow> int \<Rightarrow> Cache \<Rightarrow> Cache option" where
  "evict_loop h entrySize c =
     (if evict_cond entrySize c then evict_loop h entrySize (evictLRU h c) else Some c)"

text \<open>
  \<open>Put\<close> first writes \<open>entry.Size\<close> and \<open>entry.LastAccessed\<close> to the object it was given, and
  only then reads \<open>existing.Size\<close> through the pointer that the map holds for the key; the
  two pointers may be the same.
\<close>

definition Put ::
  "entry_heap \<Rightarrow> Cache \<Rightarrow> string \<Rightarrow> entry_ptr \<Rightarrow> nat \<Rightarrow> (entry_heap \<times> Cache) option" where
  "Put h c key entry now =
     (let entrySize = entry_size (h entry);
          h1 = h(entry := (h entry)\<lparr>Size := entrySize, LastAccessed := now\<rparr>);
          c1 = (case entries c key of
                  Some existing \<Rightarrow>
                    removeFromOrder key (c\<lparr>currentSize := currentSize c - Size (h1 existing)\<rparr>)
                | None \<Rightarrow> c)
      in case evict_loop h1 entrySize c1 of
           None \<Rightarrow> None
         | Some c2 \<Rightarrow>
             Some (h1, c2\<lparr>entries := (entries c2)(key \<mapsto> entry),
                          currentSize := currentSize c2 + entrySize,
                          accessOrder := accessOrder c2 @ [key]\<rparr>))"

definition Clear :: "Cache \<Rightarrow> Cache" where
  "Clear c = c\<lparr>entries := Map.empty, accessOrder := [], currentSize := 0\<rparr>"

text \<open>
  A sequence of steps, run from left to right: the three operations of the cache, and an
  assignment \<open>*p = e\<close> by the caller to an entry object. An assignment stands for every
  way in which the caller can change an object: writing to a field, changing the body or
  the header map that the object refers to, and making a new entry (at an address not used
  before).
\<close>

datatype cache_op =
    OpGet string nat
  | OpPut string entry_ptr nat
  | OpClear
  | OpAssign entry_ptr CacheEntry

fun run_ops :: "cache_op list \<Rightarrow> entry_heap \<Rightarrow> Cache \<Rightarrow> (entry_heap \<times> Cache) option" where
  "run_ops [] h c = Some (h, c)"
| "run_ops (OpGet key now # ops) h c =
     (case Get h c key now of (h', c', found) \<Rightarrow> run_ops ops h' c')"
| "run_ops (OpPut key entry now # ops) h c =
     (case Put h c key entry now of None \<Rightarrow> None | Some (h', c') \<Rightarrow> run_ops ops h' c')"
| "run_ops (OpClear # ops) h c = run_ops ops h (Clear c)"
| "run_ops (OpAssign p e # ops) h c = run_ops ops (h(p := e)) c"

subsection \<open>Properties of cache states\<close>

text \<open>The sum of the sizes of the stored entries.\<close>

definition sum_sizes :: "entry_heap \<Rightarrow> Cache \<Rightarrow> int" where
  "sum_sizes h c = (\<Sum>k\<in>dom (entries c). Size (h (the (entries c k))))"

text \<open>
  The state invariant, with a set \<open>K\<close> of keys held out: between the first lines of \<open>Put\<close>
  and its last ones, the key being replaced is still in the map but no longer in the LRU
  list, and its size is no longer counted. Every stored object carries the size that \<open>Put\<close>
  computed for it.
\<close>

definition cache_inv_except :: "string set \<Rightarrow> entry_heap \<Rightarrow> Cache \<Rightarrow> bool" where
  "cache_inv_except K h c \<longleftrightarrow>
     finite (dom (entries c)) \<and> distinct (accessOrder c) \<and> K \<subseteq> dom (entries c) \<and>
     set (accessOrder c) = dom (entries c) - K \<and>
     currentSize c = (\<Sum>k\<in>set (accessOrder c). Size (h (the (entries c k)))) \<and>
     (\<forall>k p. entries c k = Some p \<longrightarrow> Size (h p) = entry_size (h p))"

definition cache_inv :: "entry_heap \<Rightarrow> Cache \<Rightarrow> bool" where
  "cache_inv h c \<longleftrightarrow> cache_inv_except {} h c"

text \<open>
  The caller leaves an entry alone once it has passed it to \<open>Put\<close>: no step of the
  sequence assigns to an object that an earlier step has put (\<open>given\<close> lists the pointers
  put so far).
\<close>

fun no_write_after_put :: "entry_ptr list \<Rightarrow> cache_op list \<Rightarrow> bool" where
  "no_write_after_put given [] = True"
| "no_write_after_put given (OpPut key entry now # ops) = no_write_after_put (entry # given) ops"
| "no_write_after_put given (OpAssign p e # ops) = (p \<notin> set given \<and> no_write_after_put given ops)"
| "no_write_after_put given (OpGet key now # ops) = no_write_after_put given ops"
| "no_write_after_put given (OpClear # ops) = no_write_after_put given ops"

text \<open>
  Every entry put by the sequence is at most \<open>m\<close> bytes; the heap argument follows the
  assignments of the caller (the cache itself never changes the body or the headers of an
  object).
\<close>

fun puts_fit :: "int \<Rightarrow> cache_op list \<Rightarrow> entry_heap \<Rightarrow> bool" where
  "puts_fit m [] h = True"
| "puts_fit m (OpPut key entry now # ops) h = (entry_size (h entry) \<le> m \<and> puts_fit m ops h)"
| "puts_fit m (OpAssign p e # ops) h = puts_fit m ops (h(p := e))"
| "puts_fit m (OpGet key now # ops) h = puts_fit m ops h"
| "puts_fit m (OpClear # ops) h = puts_fit m ops h"

text \<open>
  Entries for concrete runs: one of 25 bytes, one of 100 MiB and a byte, one of three bytes
  and one of six; and the heap in which every object has the zero value of the struct.
\<close>

definition small_entry :: CacheEntry where
  "small_entry =
     \<lparr>Headers_c = [(''Content-Type'', ''text/plain'')], StatusCode = 200, Body_c = ''hi!'',
      LastAccessed = 0, Size = 0\<rparr>"

definition big_entry :: CacheEntry where
  "big_entry =
     \<lparr>Headers_c = [], StatusCode = 200, Body_c = replicate 104857601 (CHR ''x''),
      LastAccessed = 0, Size = 0\<rparr>"

definition abc_entry :: CacheEntry where
  "abc_entry =
     \<lparr>Headers_c = [], StatusCode = 200, Body_c = ''abc'', LastAccessed = 0, Size = 0\<rparr>"

definition abcdef_entry :: CacheEntry where
  "abcdef_entry =
     \<lparr>Headers_c = [], StatusCode = 200, Body_c = ''abcdef'', LastAccessed = 0, Size = 0\<rparr>"

definition zero_heap :: entry_heap where
  "zero_heap = (\<lambda>p. \<lparr>Headers_c = [], StatusCode = 0, Body_c = [], LastAccessed = 0, Size = 0\<rparr>)"

definition example_heap :: entry_heap where
  "example_heap = zero_heap(1 := small_entry, 2 := abc_entry, 3 := abcdef_entry)"

section \<open>The block list (filter.go)\<close>

text \<open>
  \<open>blockedDomains\<close> and \<open>blockedIPs\<close> are maps from rule to \<open>true\<close>: sets of rules. The
  wildcard loop of \<open>IsBlocked\<close> ranges over the map \<open>blockedDomains\<close>, and Go visits the
  keys of a map in an order that is not fixed and changes from one run to the next. So the
  domain rules are kept as the list of the keys in the order in which the loop meets them;
  a statement about every list is a statement about every order.
\<close>

record Filter =
  blockedDomains :: "string list"
  blockedIPs :: "string set"

text \<open>
  \<^verbatim>\<open>for domain := range f.blockedDomains {
      if strings.HasPrefix(domain, "*.") {
          suffix := domain[2:]
          if strings.HasSuffix(host, "."+suffix) || host == suffix { return true, domain }
      }
  }
  return false, ""\<close>
\<close>

fun wildcard_loop :: "string list \<Rightarrow> string \<Rightarrow> bool \<times> string" where
  "wildcard_loop [] host = (False, '''')"
| "wildcard_loop (domain # rest) host =
     (if HasPrefix domain ''*.'' then
        (let suffix = drop 2 domain in
         if HasSuffix host (''.'' @ suffix) \<or> host = suffix then (True, domain)
         else wildcard_loop rest host)
      else wildcard_loop rest host)"

definition IsBlocked :: "Filter \<Rightarrow> string \<Rightarrow> bool \<times> string" where
  "IsBlocked f host0 =
     (let host = ToLower (TrimSpace host0) in
      if host \<in> set (blockedDomains f) then (True, host)
      else if host \<in> blockedIPs f then (True, host)
      else wildcard_loop (blockedDomains f) host)"

text \<open>
  The words of the specification: the wildcard \<open>*.X\<close> matches the host \<open>X\<close> and every host
  that ends with \<open>.X\<close>.
\<close>

definition wildcard_matches :: "string \<Rightarrow> string \<Rightarrow> bool" where
  "wildcard_matches X host \<longleftrightarrow> host = X \<or> HasSuffix host (''.'' @ X)"

section \<open>The request parser (parser.go)\<close>

record HTTPRequest =
  Method :: string
  RequestTarget :: string
  Version :: string
  Headers :: "string \<rightharpoonup> string"
  Body :: string
  Host :: string
  Port :: int
  IsConnect :: bool

text \<open>The errors of the parser, one for each \<open>fmt.Errorf\<close> of the source.\<close>

datatype parse_error =
    ErrReadRequestLine
  | ErrInvalidRequestLine
  | ErrInvalidConnectTarget
  | ErrInvalidConnectPort
  | ErrReadHeaders
  | ErrParseURI
  | ErrInvalidURIPort
  | ErrMissingHost
  | ErrInvalidHostPort
  | ErrInvalidContentLength
  | ErrNegativeContentLength
  | ErrContentLengthTooLarge
  | ErrReadBody

definition absolute_form :: "string \<Rightarrow> bool" where
  "absolute_form target \<longleftrightarrow> HasPrefix target ''http://'' \<or> HasPrefix target ''https://''"

text \<open>
  The header loop of \<open>ParseHTTPRequest\<close>: lines are read until an empty one; a line without
  a colon is skipped; a later header of the same name replaces the earlier one. The result
  is the map and the reader after the empty line.
\<close>

function read_headers ::
  "string \<Rightarrow> (string \<rightharpoonup> string) \<Rightarrow> parse_error + ((string \<rightharpoonup> string) \<times> string)" where
  "read_headers reader hs =
     (case ReadString reader of
        None \<Rightarrow> Inl ErrReadHeaders
      | Some (line0, reader') \<Rightarrow>
          (let line = TrimRight line0 [CHR 0x0D, CHR 0x0A] in
           if line = [] then Inr (hs, reader')
           else
             (let idx = Index line (CHR '':'') in
              if idx < 0 then read_headers reader' hs
              else
                (let key = TrimSpace (ToLower (take (nat idx) line));
                     val = TrimSpace (drop (nat idx + 1) line)
                 in read_headers reader' (hs(key \<mapsto> val))))))"
  by pat_completeness auto
termination
proof (relation "measure (\<lambda>(reader, hs). length reader)")
  have shorter: "length reader' < length reader"
    if "ReadString reader = Some (line0, reader')" for reader line0 reader'
  proof -
    from that have nl: "CHR 0x0A \<in> set reader"
      and r: "reader' = tl (dropWhile (\<lambda>c. c \<noteq> CHR 0x0A) reader)"
      by (auto simp: ReadString_def split: if_splits)
    from nl have "dropWhile (\<lambda>c. c \<noteq> CHR 0x0A) reader \<noteq> []" by simp
    then have "length reader' < length (dropWhile (\<lambda>c. c \<noteq> CHR 0x0A) reader)"
      unfolding r by (cases "dropWhile (\<lambda>c. c \<noteq> CHR 0x0A) reader") simp_all
    also have "\<dots> \<le> length reader" by (rule length_dropWhile_le)
    finally show ?thesis .
  qed
  show "wf (measure (\<lambda>(reader, hs). length reader))" by simp
  show "((y, hs), reader, hs) \<in> measure (\<lambda>(reader, hs). length reader)"
    if "ReadString reader = Some x2" and "(x, y) = x2"
    for reader :: string and hs :: "string \<rightharpoonup> string" and x2 x y
    using shorter[of reader x y] that by simp
  show "((y, hs(k \<mapsto> v)), reader, hs) \<in> measure (\<lambda>(reader, hs). length reader)"
    if "ReadString reader = Some x2" and "(x, y) = x2"
    for reader :: string and hs :: "string \<rightharpoonup> string" and x2 x y k v
    using shorter[of reader x y] that by simp
qed

declare read_headers.simps [simp del]

definition extractHostAndPort ::
  "(string \<Rightarrow> URL option) \<Rightarrow> HTTPRequest \<Rightarrow> parse_error + HTTPRequest" where
  "extractHostAndPort url_Parse req =
     (if HasPrefix (RequestTarget req) ''http://'' \<or> HasPrefix (RequestTarget req) ''https://''
      then
        (case url_Parse (RequestTarget req) of
           None \<Rightarrow> Inl ErrParseURI
         | Some parsedURL \<Rightarrow>
             (let req1 = req\<lparr>Host := Hostname parsedURL\<rparr>;
                  portStr = PortStr parsedURL
              in if portStr = [] then
                   (if HasPrefix (RequestTarget req) ''https://''
                    then Inr (req1\<lparr>Port := 443\<rparr>) else Inr (req1\<lparr>Port := 80\<rparr>))
                 else
                   (case Atoi portStr of
                      None \<Rightarrow> Inl ErrInvalidURIPort
                    | Some port \<Rightarrow> Inr (req1\<lparr>Port := port\<rparr>))))
      else
        (case Headers req ''host'' of
           None \<Rightarrow> Inl ErrMissingHost
         | Some hostHeader \<Rightarrow>
             (let hostPort = SplitN hostHeader (CHR '':'') 2;
                  req1 = req\<lparr>Host := hd hostPort\<rparr>
              in if length hostPort = 2 then
                   (case Atoi (hostPort ! 1) of
                      None \<Rightarrow> Inl ErrInvalidHostPort
                    | Some port \<Rightarrow> Inr (req1\<lparr>Port := port\<rparr>))
                 else Inr (req1\<lparr>Port := 80\<rparr>))))"

text \<open>\<open>readBody\<close> returns the request with its body and the reader after the body.\<close>

definition readBody :: "HTTPRequest \<Rightarrow> string \<Rightarrow> parse_error + (HTTPRequest \<times> string)" where
  "readBody req reader =
     (case Headers req ''content-length'' of
        None \<Rightarrow> Inr (req, reader)
      | Some contentLengthStr \<Rightarrow>
          (case Atoi contentLengthStr of
             None \<Rightarrow> Inl ErrInvalidContentLength
           | Some contentLength \<Rightarrow>
               if contentLength < 0 then Inl ErrNegativeContentLength
               else if contentLength > 10 * 1024 * 1024 then Inl ErrContentLengthTooLarge
               else
                 (case ReadFull reader (nat contentLength) of
                    None \<Rightarrow> Inl ErrReadBody
                  | Some (body, reader') \<Rightarrow> Inr (req\<lparr>Body := body\<rparr>, reader'))))"

text \<open>
  \<open>ParseHTTPRequest\<close> returns the request and the reader after it, or the error.
\<close>

definition ParseHTTPRequest ::
  "(string \<Rightarrow> URL option) \<Rightarrow> string \<Rightarrow> parse_error + (HTTPRequest \<times> string)" where
  "ParseHTTPRequest url_Parse reader =
     (case ReadString reader of
        None \<Rightarrow> Inl ErrReadRequestLine
      | Some (requestLine0, reader1) \<Rightarrow>
          (let requestLine = TrimRight requestLine0 [CHR 0x0D, CHR 0x0A];
               parts = SplitN requestLine (CHR '' '') 3
           in if length parts \<noteq> 3 then Inl ErrInvalidRequestLine
              else
                (let req = \<lparr>Method = ToUpper (parts ! 0), RequestTarget = parts ! 1,
                            Version = parts ! 2, Headers = Map.empty, Body = [], Host = [],
                            Port = 0, IsConnect = False\<rparr>
                 in if Method req = ''CONNECT'' then
                      (let req1 = req\<lparr>IsConnect := True\<rparr>;
                           hostPort = SplitN (RequestTarget req1) (CHR '':'') 2
                       in if length hostPort \<noteq> 2 then Inl ErrInvalidConnectTarget
                          else
                            (case Atoi (hostPort ! 1) of
                               None \<Rightarrow> Inl ErrInvalidConnectPort
                             | Some port \<Rightarrow>
                                 Inr (req1\<lparr>Host := hostPort ! 0, Port := port\<rparr>, reader1)))
                    else
                      (case read_headers reader1 Map.empty of
                         Inl e \<Rightarrow> Inl e
                       | Inr (hs, reader2) \<Rightarrow>
                           (case extractHostAndPort url_Parse (req\<lparr>Headers := hs\<rparr>) of
                              Inl e \<Rightarrow> Inl e
                            | Inr req2 \<Rightarrow> readBody req2 reader2)))))"

text \<open>
  \<open>capitalizeHeader\<close>: split at \<open>-\<close>, first byte of each piece to upper case, the rest to
  lower case, join with \<open>-\<close>.
\<close>

definition capitalize_part :: "string \<Rightarrow> string" where
  "capitalize_part part =
     (if length part > 0 then ToUpper (take 1 part) @ ToLower (drop 1 part) else part)"

definition capitalizeHeader :: "string \<Rightarrow> string" where
  "capitalizeHeader name = Join (map capitalize_part (Split name (CHR ''-''))) ''-''"

text \<open>
  \<open>SerializeRequest\<close> writes the headers in a loop over the map \<open>req.Headers\<close>, in the order
  in which Go happens to visit the keys; the order is the argument \<open>keys\<close>.
\<close>

definition origin_form :: "URL \<Rightarrow> string" where
  "origin_form parsedURL =
     (let path = (if Path parsedURL = [] then ''/'' else Path parsedURL)
      in if RawQuery parsedURL \<noteq> [] then path @ ''?'' @ RawQuery parsedURL else path)"

definition header_line :: "HTTPRequest \<Rightarrow> string \<Rightarrow> string" where
  "header_line req key =
     (case Headers req key of
        None \<Rightarrow> []
      | Some val \<Rightarrow> capitalizeHeader key @ '': '' @ val @ [CHR 0x0D, CHR 0x0A])"

definition SerializeRequest ::
  "(string \<Rightarrow> URL option) \<Rightarrow> HTTPRequest \<Rightarrow> string list \<Rightarrow> string" where
  "SerializeRequest url_Parse req keys =
     (let target =
            (if HasPrefix (RequestTarget req) ''http://'' \<or> HasPrefix (RequestTarget req) ''https://''
             then (case url_Parse (RequestTarget req) of
                     Some parsedURL \<Rightarrow> origin_form parsedURL
                   | None \<Rightarrow> RequestTarget req)
             else RequestTarget req)
      in Method req @ '' '' @ target @ '' '' @ Version req @ [CHR 0x0D, CHR 0x0A]
         @ concat (map (header_line req) keys)
         @ [CHR 0x0D, CHR 0x0A]
         @ Body req)"

subsection \<open>Properties of the parser\<close>

text \<open>
  The request that \<open>ParseHTTPRequest\<close> builds from the request line, before it looks at the
  method; whether the line has its three parts; whether its method is \<open>CONNECT\<close>.
\<close>

definition request_of_line :: "string \<Rightarrow> HTTPRequest" where
  "request_of_line requestLine0 =
     (let parts = SplitN (TrimRight requestLine0 [CHR 0x0D, CHR 0x0A]) (CHR '' '') 3
      in \<lparr>Method = ToUpper (parts ! 0), RequestTarget = parts ! 1,
                            Version = parts ! 2, Headers = Map.empty, Body = [], Host = [],
                            Port = 0, IsConnect = False\<rparr>)"

definition well_formed_line :: "string \<Rightarrow> bool" where
  "well_formed_line requestLine0 \<longleftrightarrow>
     length (SplitN (TrimRight requestLine0 [CHR 0x0D, CHR 0x0A]) (CHR '' '') 3) = 3"

definition connect_line :: "string \<Rightarrow> bool" where
  "connect_line requestLine0 \<longleftrightarrow> Method (request_of_line requestLine0) = ''CONNECT''"




text \<open>Requests for concrete runs.\<close>

definition crlf :: string where "crlf = [CHR 0x0D, CHR 0x0A]"

definition connect_request :: string where
  "connect_request = ''CONNECT Example.COM:70000 HTTP/1.1'' @ crlf @ crlf"

definition post_request :: string where
  "post_request =
     ''POST http://Example.test:8080/submit HTTP/1.1'' @ crlf @ ''Host: example.test'' @ crlf @
     ''Content-Length: 3'' @ crlf @ crlf @ ''abcde''"

definition origin_request :: string where
  "origin_request = ''GET /index.html HTTP/1.1'' @ crlf @ ''Host: Example.test:8080'' @ crlf @ crlf"

definition negative_length_request :: string where
  "negative_length_request =
     ''POST /submit HTTP/1.1'' @ crlf @ ''Host: example.test'' @ crlf @
     ''Content-Length: -1'' @ crlf @ crlf @ ''abcde''"

definition get_request :: string where
  "get_request = ''GET http://example.test/a?b=1 HTTP/1.1'' @ crlf @ ''Host: example.test'' @ crlf @ crlf"


definition escaped_space_request :: string where
  "escaped_space_request =
     ''GET http://example.test/a%20b HTTP/1.1'' @ crlf @ ''Host: example.test'' @ crlf @ crlf"

section \<open>Connections and the forwarder (forwarder.go)\<close>

text \<open>
  The write side of a \<open>net.Conn\<close>: the bytes that have gone out so far, and how many more
  the connection takes before a write fails (\<open>None\<close>: it never fails). \<open>Write\<close> returns the
  connection, the number of bytes written and whether it failed; as the contract of
  \<open>io.Writer\<close> has it, a write that does not fail writes all of its bytes. A connection
  that has failed takes no further byte.
\<close>

record conn =
  written :: string
  room :: "nat option"

definition conn_Write :: "conn \<Rightarrow> string \<Rightarrow> conn \<times> nat \<times> bool" where
  "conn_Write c data =
     (case room c of
        None \<Rightarrow> (c\<lparr>written := written c @ data\<rparr>, length data, False)
      | Some r \<Rightarrow>
          if length data \<le> r
          then (c\<lparr>written := written c @ data, room := Some (r - length data)\<rparr>, length data, False)
          else (c\<lparr>written := written c @ take r data, room := Some 0\<rparr>, r, True))"

text \<open>
  \<^verbatim>\<open>for totalWritten < int64(len(data)) {
      n, err := conn.Write(data[totalWritten:])
      if err != nil { return totalWritten, err }
      totalWritten += int64(n)
  }
  return totalWritten, nil\<close>
\<close>

function writeAll :: "conn \<Rightarrow> string \<Rightarrow> nat \<Rightarrow> conn \<times> nat \<times> bool" where
  "writeAll c data totalWritten =
     (if totalWritten < length data then
        (case conn_Write c (drop totalWritten data) of
           (c', n, err) \<Rightarrow>
             if err then (c', totalWritten, True) else writeAll c' data (totalWritten + n))
      else (c, totalWritten, False))"
  by pat_completeness auto
termination
  by (relation "measure (\<lambda>(c, data, totalWritten). length data - totalWritten)")
     (auto simp: conn_Write_def split: option.splits if_splits)

declare writeAll.simps [simp del]

text \<open>
  The upstream server as the forwarder meets it: whether the dial succeeds, the write side
  of the connection to it, the bytes it sends back, and how its stream ends, with a clean
  close or with an error (a reset, the 30 second deadline). For a tunnel, the two copying
  goroutines race; what reaches the client before \<open>HandleCONNECT\<close> returns and whether the
  direction that finished first ended with an error are given.
\<close>

datatype io_end = EOF | IOError

record upstream =
  dial_ok :: bool
  to_upstream :: conn
  from_upstream :: string
  upstream_end :: io_end
  tunnel_to_client :: string
  tunnel_err :: bool

datatype forward_error =
    FailedToConnect
  | FailedToSendRequest
  | FailedToReadStatusLine
  | FailedToReadHeaders
  | ClientWriteError
  | UpstreamReadError
  | FailedToSendConnectResponse
  | TunnelError

definition readBufferSize :: nat where
  "readBufferSize = 8192"

text \<open>
  \<open>streamBody\<close>: \<open>reader.Read(buffer)\<close> hands over the next bytes, at most \<open>readBufferSize\<close>
  of them, and at the end of the stream nothing and the error or \<open>io.EOF\<close>.
\<close>

function streamBody ::
  "string \<Rightarrow> io_end \<Rightarrow> conn \<Rightarrow> nat \<Rightarrow> conn \<times> nat \<times> forward_error option" where
  "streamBody reader ending clientConn totalBytes =
     (if take readBufferSize reader \<noteq> [] then
        (case writeAll clientConn (take readBufferSize reader) 0 of
           (clientConn', wrote, writeErr) \<Rightarrow>
             if writeErr then (clientConn', totalBytes + wrote, Some ClientWriteError)
             else streamBody (drop readBufferSize reader) ending clientConn' (totalBytes + wrote))
      else
        (case ending of
           EOF \<Rightarrow> (clientConn, totalBytes, None)
         | IOError \<Rightarrow> (clientConn, totalBytes, Some UpstreamReadError)))"
  by pat_completeness auto
termination
  by (relation "measure (\<lambda>(reader, ending, clientConn, totalBytes). length reader)")
     (auto simp: readBufferSize_def)

declare streamBody.simps [simp del]

text \<open>The header loop of \<open>forwardResponse\<close>; it also returns the reader after the headers.\<close>

function forward_headers ::
  "string \<Rightarrow> conn \<Rightarrow> nat \<Rightarrow> conn \<times> nat \<times> forward_error option \<times> string" where
  "forward_headers reader clientConn bytesWritten =
     (case ReadString reader of
        None \<Rightarrow> (clientConn, bytesWritten, Some FailedToReadHeaders, [])
      | Some (line, reader') \<Rightarrow>
          (case writeAll clientConn line 0 of
             (clientConn', wrote, err) \<Rightarrow>
               if err then (clientConn', bytesWritten + wrote, Some ClientWriteError, reader')
               else if line = [CHR 0x0D, CHR 0x0A] \<or> line = [CHR 0x0A]
                 then (clientConn', bytesWritten + wrote, None, reader')
               else forward_headers reader' clientConn' (bytesWritten + wrote)))"
  by pat_completeness auto
termination
proof (relation "measure (\<lambda>(reader, clientConn, bytesWritten). length reader)")
  show "wf (measure (\<lambda>(reader, clientConn, bytesWritten). length reader))" by simp
  show "((reader', clientConn', bytesWritten + w), reader, clientConn, bytesWritten)
          \<in> measure (\<lambda>(reader, clientConn, bytesWritten). length reader)"
    if "ReadString reader = Some x" and "(line, reader') = x"
    for reader clientConn bytesWritten x line reader' clientConn' w
  proof -
    from that have nl: "CHR 0x0A \<in> set reader"
      and r: "reader' = tl (dropWhile (\<lambda>c. c \<noteq> CHR 0x0A) reader)"
      by (auto simp: ReadString_def split: if_splits)
    from nl have "dropWhile (\<lambda>c. c \<noteq> CHR 0x0A) reader \<noteq> []" by simp
    then have "length reader' < length (dropWhile (\<lambda>c. c \<noteq> CHR 0x0A) reader)"
      unfolding r by (cases "dropWhile (\<lambda>c. c \<noteq> CHR 0x0A) reader") simp_all
    also have "\<dots> \<le> length reader" by (rule length_dropWhile_le)
    finally show ?thesis by simp
  qed
qed

declare forward_headers.simps [simp del]

text \<open>The result of \<open>forwardResponse\<close> and of \<open>ForwardRequest\<close>, with the connections after it.\<close>

record forward_result =
  statusCode :: int
  bytesUpstream :: nat
  bytesDownstream :: nat
  forward_err :: "forward_error option"
  client_after :: conn
  upstream_after :: conn

definition status_of_line :: "string \<Rightarrow> int" where
  "status_of_line statusLine =
     (let parts = SplitN (TrimSpace statusLine) (CHR '' '') 3
      in if length parts \<ge> 2
         then (case Atoi (parts ! 1) of Some code \<Rightarrow> code | None \<Rightarrow> 0)
         else 0)"

definition forwardResponse ::
  "string \<Rightarrow> io_end \<Rightarrow> conn \<Rightarrow> int \<times> nat \<times> forward_error option \<times> conn" where
  "forwardResponse reader ending clientConn =
     (case ReadString reader of
        None \<Rightarrow> (0, 0, Some FailedToReadStatusLine, clientConn)
      | Some (statusLine, reader1) \<Rightarrow>
          (let code = status_of_line statusLine in
           case writeAll clientConn statusLine 0 of
             (clientConn1, bytesWritten, err) \<Rightarrow>
               if err then (code, bytesWritten, Some ClientWriteError, clientConn1)
               else
                 (case forward_headers reader1 clientConn1 bytesWritten of
                    (clientConn2, bytesWritten2, Some e, reader2) \<Rightarrow>
                      (code, bytesWritten2, Some e, clientConn2)
                  | (clientConn2, bytesWritten2, None, reader2) \<Rightarrow>
                      (case streamBody reader2 ending clientConn2 0 of
                         (clientConn3, bodyBytes, err3) \<Rightarrow>
                           (code, bytesWritten2 + bodyBytes, err3, clientConn3)))))"

definition ForwardRequest ::
  "(string \<Rightarrow> URL option) \<Rightarrow> HTTPRequest \<Rightarrow> string list \<Rightarrow> upstream \<Rightarrow> conn \<Rightarrow> forward_result" where
  "ForwardRequest url_Parse req keys up clientConn =
     (if \<not> dial_ok up then
        \<lparr>statusCode = 0, bytesUpstream = 0, bytesDownstream = 0,
         forward_err = Some FailedToConnect, client_after = clientConn,
         upstream_after = to_upstream up\<rparr>
      else
        (case writeAll (to_upstream up) (SerializeRequest url_Parse req keys) 0 of
           (upstreamConn, sent, err) \<Rightarrow>
             if err then
               \<lparr>statusCode = 0, bytesUpstream = sent, bytesDownstream = 0,
                forward_err = Some FailedToSendRequest, client_after = clientConn,
                upstream_after = upstreamConn\<rparr>
             else
               (case forwardResponse (from_upstream up) (upstream_end up) clientConn of
                  (code, down, err2, clientConn') \<Rightarrow>
                    \<lparr>statusCode = code, bytesUpstream = sent, bytesDownstream = down,
                     forward_err = err2, client_after = clientConn',
                     upstream_after = upstreamConn\<rparr>)))"

definition HandleCONNECT ::
  "HTTPRequest \<Rightarrow> upstream \<Rightarrow> conn \<Rightarrow> conn \<times> forward_error option" where
  "HandleCONNECT req up clientConn =
     (if \<not> dial_ok up then
        (fst (conn_Write clientConn (''HTTP/1.1 502 Bad Gateway'' @ [CHR 0x0D, CHR 0x0A, CHR 0x0D, CHR 0x0A])),
         Some FailedToConnect)
      else
        (case conn_Write clientConn
                (''HTTP/1.1 200 Connection Established'' @ [CHR 0x0D, CHR 0x0A, CHR 0x0D, CHR 0x0A]) of
           (clientConn1, n, err) \<Rightarrow>
             if err then (clientConn1, Some FailedToSendConnectResponse)
             else (fst (conn_Write clientConn1 (tunnel_to_client up)),
                   if tunnel_err up then Some TunnelError else None)))"

section \<open>The server, one connection (server.go)\<close>

text \<open>The two options that \<open>handleConnection\<close> reads.\<close>

record Config =
  AuthToken :: string
  EnableConnectTunnel :: bool

text \<open>
  A log entry. The last argument of \<open>logRequest\<close> is the rule that blocked the request, a
  fixed note, or the text of an error; the error is kept as a value.
\<close>

datatype log_note = Note string | ParseFailure parse_error | ForwardFailure forward_error

record LogEntry =
  Timestamp :: nat
  ClientIP :: string
  ClientPort :: int
  DestinationHost :: string
  DestinationPort :: int
  Method_l :: string
  RequestTarget_l :: string
  Action :: string
  UpstreamStatus :: int
  BytesUpstream :: int
  BytesDownstream :: int
  BlockedRule :: log_note

text \<open>
  What one connection meets: the address of the client, the clock, the order in which the
  serializer visits the header map, and the upstream server.
\<close>

record world =
  clientIP :: string
  clientPort :: int
  time_now :: nat
  header_order :: "string list"
  upstream_of :: upstream

definition logRequest ::
  "world \<Rightarrow> string \<Rightarrow> int \<Rightarrow> string \<Rightarrow> string \<Rightarrow> string \<Rightarrow> int \<Rightarrow> int \<Rightarrow> int \<Rightarrow> log_note \<Rightarrow> LogEntry"
  where
  "logRequest w destHost destPort method target action status bytesUp bytesDown blockedRule =
     \<lparr>Timestamp = time_now w, ClientIP = clientIP w, ClientPort = clientPort w,
      DestinationHost = destHost, DestinationPort = destPort, Method_l = method,
      RequestTarget_l = target, Action = action, UpstreamStatus = status,
      BytesUpstream = bytesUp, BytesDownstream = bytesDown, BlockedRule = blockedRule\<rparr>"

text \<open>\<open>sendErrorResponse\<close> builds the response and writes it; a write error is ignored.\<close>

definition sendErrorResponse :: "conn \<Rightarrow> int \<Rightarrow> string \<Rightarrow> conn" where
  "sendErrorResponse c code message =
     (let body = Itoa code @ '' '' @ message;
          response = ''HTTP/1.1 '' @ Itoa code @ '' '' @ message @ [CHR 0x0D, CHR 0x0A];
          response = response @ ''Content-Type: text/plain'' @ [CHR 0x0D, CHR 0x0A];
          response = response @ ''Content-Length: '' @ Itoa (int (length body)) @ [CHR 0x0D, CHR 0x0A];
          response = response @ ''Connection: close'' @ [CHR 0x0D, CHR 0x0A];
          response = response @ [CHR 0x0D, CHR 0x0A];
          response = response @ body
      in fst (conn_Write c response))"

text \<open>\<open>serveCachedResponse\<close> takes the entry object that the pointer from \<open>Get\<close> leads to.\<close>

definition serveCachedResponse :: "conn \<Rightarrow> CacheEntry \<Rightarrow> conn" where
  "serveCachedResponse c entry =
     (let c1 = fst (conn_Write c (''HTTP/1.1 '' @ Itoa (StatusCode entry) @ '' OK'' @ [CHR 0x0D, CHR 0x0A]));
          c2 = fold (\<lambda>(key, val) c'. fst (conn_Write c' (key @ '': '' @ val @ [CHR 0x0D, CHR 0x0A])))
                 (Headers_c entry) c1;
          c3 = fst (conn_Write c2 [CHR 0x0D, CHR 0x0A])
      in fst (conn_Write c3 (Body_c entry)))"

definition MakeCacheKey :: "string \<Rightarrow> string \<Rightarrow> string" where
  "MakeCacheKey method requestTarget =
     (if method \<noteq> ''GET'' then [] else method @ '':'' @ requestTarget)"

definition IsCacheable :: "string \<Rightarrow> int \<Rightarrow> bool" where
  "IsCacheable method status \<longleftrightarrow> (if method \<noteq> ''GET'' then False else status = 200)"

text \<open>
  What \<open>handleConnection\<close> leaves: the client connection, the cache (\<open>s.cache\<close> may be
  \<open>nil\<close>) with the heap of its entry objects, the log entries.
\<close>

record outcome =
  out_client :: conn
  out_cache :: "Cache option"
  out_heap :: entry_heap
  out_log :: "LogEntry list"

text \<open>\<open>req.Headers["proxy-authorization"]\<close>: the empty string when the key is missing.\<close>

definition header_or_empty :: "HTTPRequest \<Rightarrow> string \<Rightarrow> string" where
  "header_or_empty req key = (case Headers req key of None \<Rightarrow> [] | Some v \<Rightarrow> v)"

text \<open>The \<open>CONNECT\<close> branch of \<open>handleConnection\<close>.\<close>

definition handle_connect ::
  "Config \<Rightarrow> Filter \<Rightarrow> Cache option \<Rightarrow> entry_heap \<Rightarrow> world \<Rightarrow> HTTPRequest \<Rightarrow> conn \<Rightarrow> outcome"
  where
  "handle_connect cfg flt cache h w req c =
     (if \<not> EnableConnectTunnel cfg then
        \<lparr>out_client = sendErrorResponse c 501 ''Not Implemented'',
         out_cache = cache, out_heap = h,
         out_log = [logRequest w (Host req) (Port req) (Method req) (RequestTarget req)
                      ''BLOCKED'' 501 0 0 (Note ''CONNECT not enabled'')]\<rparr>
      else
        (case IsBlocked flt (Host req) of
           (True, rule) \<Rightarrow>
             \<lparr>out_client = sendErrorResponse c 403 ''Forbidden'',
              out_cache = cache, out_heap = h,
              out_log = [logRequest w (Host req) (Port req) (Method req) (RequestTarget req)
                           ''BLOCKED'' 403 0 0 (Note rule)]\<rparr>
         | (False, rule) \<Rightarrow>
             (case HandleCONNECT req (upstream_of w) c of
                (c', Some err) \<Rightarrow>
                  \<lparr>out_client = c',
                   out_cache = cache, out_heap = h,
                   out_log = [logRequest w (Host req) (Port req) (Method req) (RequestTarget req)
                                ''ERROR'' 0 0 0 (ForwardFailure err)]\<rparr>
              | (c', None) \<Rightarrow>
                  \<lparr>out_client = c',
                   out_cache = cache, out_heap = h,
                   out_log = [logRequest w (Host req) (Port req) (Method req) (RequestTarget req)
                                ''ALLOWED'' 200 0 0 (Note [])]\<rparr>)))"

text \<open>The last part of \<open>handleConnection\<close>: forwarding the request.\<close>

definition handle_forward ::
  "(string \<Rightarrow> URL option) \<Rightarrow> Cache option \<Rightarrow> entry_heap \<Rightarrow> world \<Rightarrow> HTTPRequest \<Rightarrow> conn \<Rightarrow>
   outcome" where
  "handle_forward url_Parse cache h w req c =
     (let r = ForwardRequest url_Parse req (header_order w) (upstream_of w) c in
      case forward_err r of
        Some err \<Rightarrow>
          \<lparr>out_client = sendErrorResponse (client_after r) 502 ''Bad Gateway'',
           out_cache = cache, out_heap = h,
           out_log = [logRequest w (Host req) (Port req) (Method req) (RequestTarget req)
                        ''ERROR'' 502 (int (bytesUpstream r)) (int (bytesDownstream r))
                        (ForwardFailure err)]\<rparr>
      | None \<Rightarrow>
          \<lparr>out_client = client_after r,
           out_cache = cache, out_heap = h,
           out_log = [logRequest w (Host req) (Port req) (Method req) (RequestTarget req)
                        ''ALLOWED'' (statusCode r) (int (bytesUpstream r))
                        (int (bytesDownstream r)) (Note [])]\<rparr>)"

definition handleConnection ::
  "(string \<Rightarrow> URL option) \<Rightarrow> Config \<Rightarrow> Filter \<Rightarrow> Cache option \<Rightarrow> entry_heap \<Rightarrow> world \<Rightarrow> string \<Rightarrow>
   conn \<Rightarrow> outcome"
  where
  "handleConnection url_Parse cfg flt cache h w reader c =
     (case ParseHTTPRequest url_Parse reader of
        Inl err \<Rightarrow>
          \<lparr>out_client = sendErrorResponse c 400 ''Bad Request'',
           out_cache = cache, out_heap = h,
           out_log = [logRequest w [] 0 ''UNKNOWN'' [] ''ERROR'' 400 0 0 (ParseFailure err)]\<rparr>
      | Inr (req, reader') \<Rightarrow>
          if AuthToken cfg \<noteq> [] \<and> header_or_empty req ''proxy-authorization'' \<noteq> AuthToken cfg then
            \<lparr>out_client = sendErrorResponse c 407 ''Proxy Authentication Required'',
             out_cache = cache, out_heap = h,
             out_log = [logRequest w (Host req) (Port req) (Method req) (RequestTarget req)
                          ''AUTH_FAILED'' 407 0 0 (Note [])]\<rparr>
          else if IsConnect req then handle_connect cfg flt cache h w req c
          else
            (case IsBlocked flt (Host req) of
               (True, rule) \<Rightarrow>
                 \<lparr>out_client = sendErrorResponse c 403 ''Forbidden'',
                  out_cache = cache, out_heap = h,
                  out_log = [logRequest w (Host req) (Port req) (Method req) (RequestTarget req)
                               ''BLOCKED'' 403 0 0 (Note rule)]\<rparr>
             | (False, rule) \<Rightarrow>
                 (let cacheKey = MakeCacheKey (Method req) (RequestTarget req) in
                  case (if cacheKey \<noteq> [] then cache else None) of
                    None \<Rightarrow> handle_forward url_Parse cache h w req c
                  | Some ca \<Rightarrow>
                      (case Get h ca cacheKey (time_now w) of
                         (h', ca', Some cachedEntry) \<Rightarrow>
                           \<lparr>out_client = serveCachedResponse c (h' cachedEntry),
                            out_cache = Some ca', out_heap = h',
                            out_log = [logRequest w (Host req) (Port req) (Method req)
                                         (RequestTarget req) ''CACHE_HIT''
                                         (StatusCode (h' cachedEntry)) 0
                                         (int (length (Body_c (h' cachedEntry)))) (Note [])]\<rparr>
                       | (h', ca', None) \<Rightarrow> handle_forward url_Parse (Some ca') h' w req c))))"

text \<open>
  The words of the specification for an error response: the status line, then
  \<open>Content-Type: text/plain\<close>, \<open>Content-Length\<close> with the length of the body,
  \<open>Connection: close\<close>, an empty line, and the body \<open><code> <reason>\<close>.
\<close>

definition error_body :: "int \<Rightarrow> string \<Rightarrow> string" where
  "error_body code reason = Itoa code @ '' '' @ reason"

definition error_response :: "int \<Rightarrow> string \<Rightarrow> string" where
  "error_response code reason =
     ''HTTP/1.1 '' @ Itoa code @ '' '' @ reason @ crlf @
     ''Content-Type: text/plain'' @ crlf @
     ''Content-Length: '' @ Itoa (int (length (error_body code reason))) @ crlf @
     ''Connection: close'' @ crlf @
     crlf @
     error_body code reason"

subsection \<open>Properties of a connection\<close>

text \<open>
  The authentication check of \<open>handleConnection\<close> fails; the cache has an entry for the
  request; the response that \<open>HandleCONNECT\<close> writes when the dial fails.
\<close>

definition auth_fails :: "Config \<Rightarrow> HTTPRequest \<Rightarrow> bool" where
  "auth_fails cfg req \<longleftrightarrow>
     AuthToken cfg \<noteq> [] \<and> header_or_empty req ''proxy-authorization'' \<noteq> AuthToken cfg"

definition cache_hit :: "Cache option \<Rightarrow> world \<Rightarrow> HTTPRequest \<Rightarrow> bool" where
  "cache_hit cache w req \<longleftrightarrow>
     (case cache of
        None \<Rightarrow> False
      | Some ca \<Rightarrow>
          MakeCacheKey (Method req) (RequestTarget req) \<noteq> [] \<and>
          entries ca (MakeCacheKey (Method req) (RequestTarget req)) \<noteq> None)"

definition bare_502 :: string where
  "bare_502 = ''HTTP/1.1 502 Bad Gateway'' @ crlf @ crlf"

text \<open>
  What a client connection takes of the bytes that the proxy writes to it, in one write or
  in several: all of them, or as many as it has room for. The connection after these
  writes; and whether it has failed before it has taken them all.
\<close>

definition delivered :: "conn \<Rightarrow> string \<Rightarrow> string" where
  "delivered c s = (case room c of None \<Rightarrow> s | Some r \<Rightarrow> take r s)"

definition conn_after :: "conn \<Rightarrow> string \<Rightarrow> conn" where
  "conn_after c s =
     c\<lparr>written := written c @ delivered c s,
       room := (case room c of None \<Rightarrow> None | Some r \<Rightarrow> Some (r - length s))\<rparr>"

definition cut_short :: "conn \<Rightarrow> string \<Rightarrow> bool" where
  "cut_short c s \<longleftrightarrow> (case room c of None \<Rightarrow> False | Some r \<Rightarrow> r < length s)"

text \<open>Connections, upstream servers, rule sets, configurations and requests for concrete runs.\<close>

definition open_conn :: conn where
  "open_conn = \<lparr>written = [], room = None\<rparr>"


definition ok_upstream :: upstream where
  "ok_upstream =
     \<lparr>dial_ok = True, to_upstream = open_conn,
      from_upstream = ''HTTP/1.1 200 OK'' @ crlf @ ''Content-Length: 3'' @ crlf @ crlf @ ''hi!'',
      upstream_end = EOF, tunnel_to_client = [], tunnel_err = False\<rparr>"

definition broken_upstream :: upstream where
  "broken_upstream = ok_upstream\<lparr>from_upstream := ''HTTP/1.1 200 OK'' @ crlf, upstream_end := IOError\<rparr>"

definition unreachable_upstream :: upstream where
  "unreachable_upstream = ok_upstream\<lparr>dial_ok := False\<rparr>"

definition world_with :: "upstream \<Rightarrow> world" where
  "world_with up =
     \<lparr>clientIP = ''10.0.0.7'', clientPort = 50000, time_now = 0, header_order = [''host''],
      upstream_of = up\<rparr>"

definition no_rules :: Filter where
  "no_rules = \<lparr>blockedDomains = [], blockedIPs = {}\<rparr>"

definition example_rules :: Filter where
  "example_rules = \<lparr>blockedDomains = [''example.test''], blockedIPs = {}\<rparr>"

definition open_config :: Config where
  "open_config = \<lparr>AuthToken = [], EnableConnectTunnel = True\<rparr>"

definition token_config :: Config where
  "token_config = \<lparr>AuthToken = ''secret'', EnableConnectTunnel = True\<rparr>"

definition no_tunnel_config :: Config where
  "no_tunnel_config = \<lparr>AuthToken = [], EnableConnectTunnel = False\<rparr>"

definition malformed_request :: string where
  "malformed_request = ''GARBAGE'' @ crlf @ crlf"

definition connect_api_request :: string where
  "connect_api_request =
     ''CONNECT api.test:443 HTTP/1.1'' @ crlf @ ''Proxy-Authorization: secret'' @ crlf @ crlf"

definition portless_connect_request :: string where
  "portless_connect_request =
     ''CONNECT api.test HTTP/1.1'' @ crlf @ ''Proxy-Authorization: secret'' @ crlf @ crlf"

section \<open>The cache: eviction, invariants, termination\<close>

lemma evictLRU_bounds [simp]:
  "maxEntries (evictLRU h c) = maxEntries c" "maxSize (evictLRU h c) = maxSize c"
  by (auto simp: evictLRU_def Let_def split: list.splits option.splits)

lemma cache_inv_exceptD:
  assumes "cache_inv_except K h c"
  shows "finite (dom (entries c))" and "distinct (accessOrder c)" and "K \<subseteq> dom (entries c)"
    and "set (accessOrder c) = dom (entries c) - K"
    and "currentSize c = (\<Sum>k\<in>set (accessOrder c). Size (h (the (entries c k))))"
    and "\<And>k p. entries c k = Some p \<Longrightarrow> Size (h p) = entry_size (h p)"
  using assms unfolding cache_inv_except_def by blast+

lemma cache_inv_exceptI:
  assumes "finite (dom (entries c))" and "distinct (accessOrder c)" and "K \<subseteq> dom (entries c)"
    and "set (accessOrder c) = dom (entries c) - K"
    and "currentSize c = (\<Sum>k\<in>set (accessOrder c). Size (h (the (entries c k))))"
    and "\<And>k p. entries c k = Some p \<Longrightarrow> Size (h p) = entry_size (h p)"
  shows "cache_inv_except K h c"
  using assms unfolding cache_inv_except_def by blast

lemma evictLRU_inv:
  assumes "cache_inv_except K h c"
  shows "cache_inv_except K h (evictLRU h c)"
proof (cases "accessOrder c")
  case Nil
  then show ?thesis using assms by (simp add: evictLRU_def)
next
  case (Cons key rest)
  note D = cache_inv_exceptD[OF assms]
  from D(2,4) Cons have key: "key \<in> dom (entries c)" "key \<notin> K" "key \<notin> set rest" "distinct rest"
    and rest: "set rest = dom (entries c) - K - {key}"
    by auto
  from key obtain p where e: "entries c key = Some p" by auto
  have ev: "evictLRU h c = c\<lparr>accessOrder := rest, currentSize := currentSize c - Size (h p),
                 entries := (entries c)(key := None)\<rparr>"
    by (simp add: evictLRU_def Cons e)
  have "currentSize c = Size (h p) + (\<Sum>k\<in>set rest. Size (h (the (entries c k))))"
    using D(5) Cons key e by simp
  moreover have "(\<Sum>k\<in>set rest. Size (h (the (((entries c)(key := None)) k)))) =
      (\<Sum>k\<in>set rest. Size (h (the (entries c k))))"
    using key by (intro sum.cong) auto
  ultimately have cs: "currentSize c - Size (h p) =
      (\<Sum>k\<in>set rest. Size (h (the (((entries c)(key := None)) k))))"
    by simp
  show ?thesis
    unfolding ev
  proof (rule cache_inv_exceptI)
    show "finite (dom (entries (c\<lparr>accessOrder := rest, currentSize := currentSize c - Size (h p),
                 entries := (entries c)(key := None)\<rparr>)))"
      using D(1) by simp
    show "distinct (accessOrder (c\<lparr>accessOrder := rest, currentSize := currentSize c - Size (h p),
                 entries := (entries c)(key := None)\<rparr>))"
      using key by simp
    show "K \<subseteq> dom (entries (c\<lparr>accessOrder := rest, currentSize := currentSize c - Size (h p),
                 entries := (entries c)(key := None)\<rparr>))"
      using D(3) key by auto
    show "set (accessOrder (c\<lparr>accessOrder := rest, currentSize := currentSize c - Size (h p),
                 entries := (entries c)(key := None)\<rparr>)) =
          dom (entries (c\<lparr>accessOrder := rest, currentSize := currentSize c - Size (h p),
                 entries := (entries c)(key := None)\<rparr>)) - K"
      using rest by auto
    show "currentSize (c\<lparr>accessOrder := rest, currentSize := currentSize c - Size (h p),
                 entries := (entries c)(key := None)\<rparr>) =
          (\<Sum>k\<in>set (accessOrder (c\<lparr>accessOrder := rest, currentSize := currentSize c - Size (h p),
                 entries := (entries c)(key := None)\<rparr>)).
             Size (h (the (entries (c\<lparr>accessOrder := rest, currentSize := currentSize c - Size (h p),
                 entries := (entries c)(key := None)\<rparr>) k))))"
      using cs by simp
    show "Size (h q) = entry_size (h q)"
      if "entries (c\<lparr>accessOrder := rest, currentSize := currentSize c - Size (h p),
                 entries := (entries c)(key := None)\<rparr>) k = Some q" for k q
      using that D(6)[of k q] by (simp split: if_splits)
  qed
qed

lemma evictLRU_shorter:
  "accessOrder c \<noteq> [] \<Longrightarrow> length (accessOrder (evictLRU h c)) < length (accessOrder c)"
  by (auto simp: evictLRU_def Let_def split: list.splits option.splits)

lemma evictLRU_held:
  assumes "cache_inv_except K h c" and "k \<in> K"
  shows "entries (evictLRU h c) k = entries c k"
  using cache_inv_exceptD(4)[OF assms(1)] assms(2)
  by (auto simp: evictLRU_def Let_def split: list.splits option.splits)

lemma evictLRU_le: "entries (evictLRU h c) \<subseteq>\<^sub>m entries c"
  by (auto simp: evictLRU_def Let_def map_le_def split: list.splits option.splits if_splits)

lemma evict_loop_result:
  assumes "evict_loop h s c = Some c'" and "cache_inv_except K h c"
  shows "cache_inv_except K h c' \<and> \<not> evict_cond s c' \<and> maxEntries c' = maxEntries c \<and>
         maxSize c' = maxSize c \<and> entries c' \<subseteq>\<^sub>m entries c \<and>
         (\<forall>k\<in>K. entries c' k = entries c k)"
proof -
  let ?P = "\<lambda>h s c c'. cache_inv_except K h c \<longrightarrow>
         cache_inv_except K h c' \<and> \<not> evict_cond s c' \<and> maxEntries c' = maxEntries c \<and>
         maxSize c' = maxSize c \<and> entries c' \<subseteq>\<^sub>m entries c \<and>
         (\<forall>k\<in>K. entries c' k = entries c k)"
  have "?P h s c c'"
  proof (rule evict_loop.raw_induct[where P = ?P, OF _ assms(1)])
    fix f h s c c'
    assume IH: "\<And>h s c y. f h s c = Some y \<Longrightarrow> ?P h s c y"
      and eq: "(if evict_cond s c then f h s (evictLRU h c) else Some c) = Some c'"
    show "?P h s c c'"
    proof (cases "evict_cond s c")
      case True
      with eq have "f h s (evictLRU h c) = Some c'" by simp
      note ih = IH[OF this]
      show ?thesis
      proof
        assume inv: "cache_inv_except K h c"
        from ih evictLRU_inv[OF inv]
        have r: "cache_inv_except K h c'" "\<not> evict_cond s c'" "maxEntries c' = maxEntries c"
          "maxSize c' = maxSize c" "entries c' \<subseteq>\<^sub>m entries (evictLRU h c)"
          "\<forall>k\<in>K. entries c' k = entries (evictLRU h c) k"
          by simp_all
        from r(5) evictLRU_le[of h c] have "entries c' \<subseteq>\<^sub>m entries c" by (rule map_le_trans)
        moreover from r(6) evictLRU_held[OF inv] have "\<forall>k\<in>K. entries c' k = entries c k"
          by simp
        ultimately show "cache_inv_except K h c' \<and> \<not> evict_cond s c' \<and>
            maxEntries c' = maxEntries c \<and> maxSize c' = maxSize c \<and>
            entries c' \<subseteq>\<^sub>m entries c \<and> (\<forall>k\<in>K. entries c' k = entries c k)"
          using r(1-4) by simp
      qed
    next
      case False
      with eq show ?thesis by auto
    qed
  qed
  with assms(2) show ?thesis by simp
qed

lemma evict_loop_terminates:
  assumes "cache_inv_except K h c" and "K = {} \<or> (int (card K) < maxEntries c \<and> s \<le> maxSize c)"
  shows "\<exists>c'. evict_loop h s c = Some c'"
  using assms
proof (induction "length (accessOrder c)" arbitrary: c rule: less_induct)
  case less
  show ?case
  proof (cases "evict_cond s c")
    case False
    then show ?thesis by (subst evict_loop.simps) simp
  next
    case True
    have "accessOrder c \<noteq> []"
    proof
      assume e: "accessOrder c = []"
      note D = cache_inv_exceptD[OF less.prems(1)]
      from D(3,4,5) e have d: "dom (entries c) = K" "currentSize c = 0"
        by auto
      with True less.prems(2) show False
        by (auto simp: evict_cond_def len_entries_def)
    qed
    from evictLRU_shorter[OF this] evictLRU_inv[OF less.prems(1)] less.prems(2)
    have "\<exists>c'. evict_loop h s (evictLRU h c) = Some c'"
      by (intro less.hyps) auto
    with True show ?thesis by (subst evict_loop.simps) simp
  qed
qed

lemma evict_loop_stuck:
  assumes "evict_cond s c" and "evictLRU h c = c"
  shows "evict_loop h s c = None"
proof (cases "evict_loop h s c")
  case (Some y)
  let ?P = "\<lambda>h s c (y::Cache). \<not> (evict_cond s c \<and> evictLRU h c = c)"
  have "?P h s c y"
  proof (rule evict_loop.raw_induct[where P = ?P, OF _ Some])
    fix f h s c y
    assume IH: "\<And>h s c y. f h s c = Some y \<Longrightarrow> ?P h s c y"
      and eq: "(if evict_cond s c then f h s (evictLRU h c) else Some c) = Some (y::Cache)"
    show "?P h s c y"
    proof
      assume a: "evict_cond s c \<and> evictLRU h c = c"
      with eq have "f h s c = Some y" by simp
      from IH[OF this] a show False by simp
    qed
  qed
  with assms show ?thesis by simp
qed simp

lemma cache_inv_sum: "cache_inv h c \<Longrightarrow> currentSize c = sum_sizes h c"
  by (simp add: cache_inv_def cache_inv_except_def sum_sizes_def)

lemma NewCache_inv: "cache_inv h (NewCache n)"
  by (simp add: cache_inv_def cache_inv_except_def NewCache_def)

lemma Clear_inv: "cache_inv h (Clear c)"
  by (simp add: cache_inv_def cache_inv_except_def Clear_def)

text \<open>A change of the heap that keeps the sizes of the stored objects keeps the invariant.\<close>

lemma cache_inv_frame:
  assumes "cache_inv_except K h c"
    and "\<And>k p. entries c k = Some p \<Longrightarrow>
           Size (h' p) = Size (h p) \<and> entry_size (h' p) = entry_size (h p)"
  shows "cache_inv_except K h' c"
proof -
  note D = cache_inv_exceptD[OF assms(1)]
  have "(\<Sum>k\<in>set (accessOrder c). Size (h' (the (entries c k)))) =
        (\<Sum>k\<in>set (accessOrder c). Size (h (the (entries c k))))"
  proof (rule sum.cong[OF refl])
    fix k assume "k \<in> set (accessOrder c)"
    with D(4) obtain p where "entries c k = Some p" by auto
    with assms(2)[OF this] show "Size (h' (the (entries c k))) = Size (h (the (entries c k)))"
      by simp
  qed
  with D(5) have cs: "currentSize c = (\<Sum>k\<in>set (accessOrder c). Size (h' (the (entries c k))))"
    by simp
  have z: "Size (h' p) = entry_size (h' p)" if "entries c k = Some p" for k p
    using assms(2)[OF that] D(6)[OF that] by simp
  from D(1-4) cs z show ?thesis by (rule cache_inv_exceptI)
qed

lemma entry_size_update [simp]:
  "entry_size (e\<lparr>LastAccessed := t\<rparr>) = entry_size e"
  "entry_size (e\<lparr>Size := s\<rparr>) = entry_size e"
  by (simp_all add: entry_size_def)

lemma Get_result:
  "Get h c key now = (h', c', found) \<Longrightarrow>
     (\<forall>q. Size (h' q) = Size (h q) \<and> entry_size (h' q) = entry_size (h q)) \<and>
     entries c' = entries c \<and> maxEntries c' = maxEntries c \<and> maxSize c' = maxSize c \<and>
     currentSize c' = currentSize c \<and> found = entries c key"
  by (auto simp: Get_def moveToEnd_def removeFromOrder_def Let_def split: option.splits)

lemma Get_inv:
  assumes "cache_inv h c" and "Get h c key now = (h', c', found)"
  shows "cache_inv h' c'"
proof (cases "entries c key")
  case None
  then show ?thesis using assms by (simp add: Get_def)
next
  case (Some p)
  have f: "cache_inv_except {} h' c"
    using assms(1) Get_result[OF assms(2)] unfolding cache_inv_def
    by (intro cache_inv_frame[of "{}" h c h']) auto
  note D = cache_inv_exceptD[OF f]
  from D(4) Some have k: "key \<in> set (accessOrder c)" by auto
  from assms(2) Some have c': "c' = c\<lparr>accessOrder := remove1 key (accessOrder c) @ [key]\<rparr>"
    by (simp add: Get_def moveToEnd_def removeFromOrder_def Let_def)
  have st: "set (remove1 key (accessOrder c) @ [key]) = set (accessOrder c)"
    using k D(2) by auto
  have di: "distinct (remove1 key (accessOrder c) @ [key])"
    using D(2) by simp
  show ?thesis
    unfolding cache_inv_def c'
  proof (rule cache_inv_exceptI)
    show "finite (dom (entries (c\<lparr>accessOrder := remove1 key (accessOrder c) @ [key]\<rparr>)))"
      using D(1) by simp
    show "distinct (accessOrder (c\<lparr>accessOrder := remove1 key (accessOrder c) @ [key]\<rparr>))"
      using di by simp
    show "{} \<subseteq> dom (entries (c\<lparr>accessOrder := remove1 key (accessOrder c) @ [key]\<rparr>))"
      by simp
    show "set (accessOrder (c\<lparr>accessOrder := remove1 key (accessOrder c) @ [key]\<rparr>)) =
          dom (entries (c\<lparr>accessOrder := remove1 key (accessOrder c) @ [key]\<rparr>)) - {}"
      using D(4) st by simp
    show "currentSize (c\<lparr>accessOrder := remove1 key (accessOrder c) @ [key]\<rparr>) =
          (\<Sum>k\<in>set (accessOrder (c\<lparr>accessOrder := remove1 key (accessOrder c) @ [key]\<rparr>)).
             Size (h' (the (entries (c\<lparr>accessOrder := remove1 key (accessOrder c) @ [key]\<rparr>) k))))"
      using D(5) st by simp
    show "Size (h' q) = entry_size (h' q)"
      if "entries (c\<lparr>accessOrder := remove1 key (accessOrder c) @ [key]\<rparr>) k = Some q" for k q
      using that D(6)[of k q] by simp
  qed
qed

lemma Put_held_out:
  assumes "cache_inv h c" and "entries c key = Some existing"
  shows "cache_inv_except {key} h
           (removeFromOrder key (c\<lparr>currentSize := currentSize c - Size (h existing)\<rparr>))"
proof -
  note D = cache_inv_exceptD[OF assms(1)[unfolded cache_inv_def]]
  from D(4) assms(2) have k: "key \<in> set (accessOrder c)" by auto
  have "(\<Sum>k\<in>set (accessOrder c). Size (h (the (entries c k)))) =
        Size (h existing) + (\<Sum>k\<in>set (accessOrder c) - {key}. Size (h (the (entries c k))))"
    using k assms(2) by (simp add: sum.remove)
  with D(5) have cs: "currentSize c - Size (h existing) =
        (\<Sum>k\<in>set (accessOrder c) - {key}. Size (h (the (entries c k))))"
    by simp
  have st: "set (remove1 key (accessOrder c)) = set (accessOrder c) - {key}"
    using D(2) by simp
  show ?thesis
    unfolding removeFromOrder_def
  proof (rule cache_inv_exceptI)
    let ?c = "c\<lparr>currentSize := currentSize c - Size (h existing)\<rparr>
               \<lparr>accessOrder := remove1 key
                  (accessOrder (c\<lparr>currentSize := currentSize c - Size (h existing)\<rparr>))\<rparr>"
    show "finite (dom (entries ?c))" using D(1) by simp
    show "distinct (accessOrder ?c)" using D(2) by simp
    show "{key} \<subseteq> dom (entries ?c)" using assms(2) by auto
    show "set (accessOrder ?c) = dom (entries ?c) - {key}" using D(4) st by simp
    show "currentSize ?c = (\<Sum>k\<in>set (accessOrder ?c). Size (h (the (entries ?c k))))"
      using cs st by simp
    show "Size (h q) = entry_size (h q)" if "entries ?c k = Some q" for k q
      using that D(6)[of k q] by simp
  qed
qed

text \<open>The first lines of \<open>Put\<close> leave the sizes of the stored objects as they are.\<close>

lemma Put_heap_inv:
  assumes "cache_inv h c"
  shows "cache_inv (h(p := (h p)\<lparr>Size := entry_size (h p), LastAccessed := now\<rparr>)) c"
  unfolding cache_inv_def
proof (rule cache_inv_frame[of "{}" h c])
  show "cache_inv_except {} h c" using assms by (simp add: cache_inv_def)
  fix k q assume "entries c k = Some q"
  from cache_inv_exceptD(6)[OF assms[unfolded cache_inv_def] this]
  have "Size (h q) = entry_size (h q)" .
  then show "Size ((h(p := (h p)\<lparr>Size := entry_size (h p), LastAccessed := now\<rparr>)) q) = Size (h q) \<and>
      entry_size ((h(p := (h p)\<lparr>Size := entry_size (h p), LastAccessed := now\<rparr>)) q) = entry_size (h q)"
    by simp
qed

text \<open>What \<open>Put\<close> leaves behind, whenever it returns.\<close>

lemma Put_inv:
  assumes inv: "cache_inv h c" and put: "Put h c key p now = Some (h', c')"
  shows "cache_inv h' c'" and "maxEntries c' = maxEntries c" and "maxSize c' = maxSize c"
    and "1 \<le> maxEntries c \<Longrightarrow> len_entries c' \<le> maxEntries c"
    and "entry_size (h p) \<le> maxSize c \<Longrightarrow> currentSize c' \<le> maxSize c"
    and "entries c' key = Some p"
    and "h' = h(p := (h p)\<lparr>Size := entry_size (h p), LastAccessed := now\<rparr>)"
    and "accessOrder c' \<noteq> [] \<and> last (accessOrder c') = key"
    and "\<And>k q. entries c' k = Some q \<Longrightarrow> q = p \<or> entries c k = Some q"
proof -
  define h1 where "h1 = h(p := (h p)\<lparr>Size := entry_size (h p), LastAccessed := now\<rparr>)"
  define K where "K = (case entries c key of None \<Rightarrow> {} | Some _ \<Rightarrow> {key})"
  define c1 where "c1 = (case entries c key of
                  Some existing \<Rightarrow>
                    removeFromOrder key (c\<lparr>currentSize := currentSize c - Size (h1 existing)\<rparr>)
                | None \<Rightarrow> c)"
  have inv1: "cache_inv h1 c" unfolding h1_def by (rule Put_heap_inv[OF inv])
  have hp: "Size (h1 p) = entry_size (h p)" "entry_size (h1 p) = entry_size (h p)"
    by (simp_all add: h1_def)
  have c1: "cache_inv_except K h1 c1" "maxEntries c1 = maxEntries c" "maxSize c1 = maxSize c"
    "entries c1 = entries c"
    using inv1 Put_held_out[OF inv1]
    by (auto simp: K_def c1_def cache_inv_def removeFromOrder_def split: option.splits)
  from put obtain c2 where loop: "evict_loop h1 (entry_size (h p)) c1 = Some c2"
    and c': "c' = c2\<lparr>entries := (entries c2)(key \<mapsto> p),
                      currentSize := currentSize c2 + entry_size (h p),
                      accessOrder := accessOrder c2 @ [key]\<rparr>"
    and h': "h' = h1"
    unfolding Put_def Let_def c1_def[symmetric] h1_def[symmetric]
    by (auto split: option.splits)
  from evict_loop_result[OF loop c1(1)] c1
  have c2: "cache_inv_except K h1 c2" "\<not> evict_cond (entry_size (h p)) c2"
    "maxEntries c2 = maxEntries c" "maxSize c2 = maxSize c"
    "entries c2 \<subseteq>\<^sub>m entries c"
    by auto
  from c2(5) have dsub: "dom (entries c2) \<subseteq> dom (entries c)"
    by (rule map_le_implies_dom_le)
  have Kdom: "dom (entries c2) - K = dom (entries c2) - {key}"
    using dsub by (auto simp: K_def split: option.splits)
  note D = cache_inv_exceptD[OF c2(1)]
  from D(4) Kdom have o2: "set (accessOrder c2) = dom (entries c2) - {key}" by simp
  note cs = D(5)
  let ?m = "(entries c2)(key \<mapsto> p)"
  have sum_eq: "(\<Sum>k\<in>set (accessOrder c2). Size (h1 (the (?m k)))) =
        (\<Sum>k\<in>set (accessOrder c2). Size (h1 (the (entries c2 k))))"
    using o2 by (intro sum.cong) auto
  have st: "set (accessOrder c2 @ [key]) = insert key (set (accessOrder c2))"
    by simp
  have notin: "key \<notin> set (accessOrder c2)"
    using o2 by simp
  have "(\<Sum>k\<in>insert key (set (accessOrder c2)). Size (h1 (the (?m k)))) =
        entry_size (h p) + (\<Sum>k\<in>set (accessOrder c2). Size (h1 (the (?m k))))"
    using notin hp by simp
  with sum_eq cs have total: "currentSize c2 + entry_size (h p) =
        (\<Sum>k\<in>set (accessOrder c2 @ [key]). Size (h1 (the (?m k))))"
    unfolding st by simp
  have f': "accessOrder c' = accessOrder c2 @ [key]" "entries c' = ?m"
      "currentSize c' = currentSize c2 + entry_size (h p)"
    by (simp_all add: c')
  show "cache_inv h' c'"
    unfolding cache_inv_def
  proof (rule cache_inv_exceptI)
    show "finite (dom (entries c'))" using D(1) by (simp add: f')
    show "distinct (accessOrder c')" using D(2) notin by (simp add: f')
    show "{} \<subseteq> dom (entries c')" by simp
    show "set (accessOrder c') = dom (entries c') - {}" using o2 by (auto simp: f')
    show "currentSize c' = (\<Sum>k\<in>set (accessOrder c'). Size (h' (the (entries c' k))))"
      using total unfolding h' f' by (simp only:)
    show "Size (h' q) = entry_size (h' q)" if "entries c' k = Some q" for k q
    proof (cases "k = key")
      case True
      with that have "q = p" by (simp add: f')
      with hp show ?thesis by (simp add: h')
    next
      case False
      with that have "entries c2 k = Some q" by (simp add: f')
      from D(6)[OF this] show ?thesis by (simp add: h')
    qed
  qed
  show "maxEntries c' = maxEntries c" "maxSize c' = maxSize c"
    using c2 by (simp_all add: c')
  show "entries c' key = Some p"
    by (simp add: c')
  show "h' = h(p := (h p)\<lparr>Size := entry_size (h p), LastAccessed := now\<rparr>)"
    by (simp add: h' h1_def)
  show "accessOrder c' \<noteq> [] \<and> last (accessOrder c') = key"
    by (simp add: c')
  show "q = p \<or> entries c k = Some q" if "entries c' k = Some q" for k q
  proof (cases "k = key")
    case True
    with that show ?thesis by (simp add: c')
  next
    case False
    with that have "entries c2 k = Some q" by (simp add: c')
    with c2(5) show ?thesis by (auto simp: map_le_def dom_def)
  qed
  have card': "len_entries c' = (if key \<in> dom (entries c2) then len_entries c2 else len_entries c2 + 1)"
    using D(1) by (auto simp: c' len_entries_def insert_absorb)
  have pos: "key \<in> dom (entries c2) \<Longrightarrow> 0 < len_entries c2"
    using D(1) by (auto simp: len_entries_def card_gt_0_iff)
  have empty: "\<not> 0 < len_entries c2 \<Longrightarrow> accessOrder c2 = [] \<and> dom (entries c2) = {}"
    using o2 D(1) by (auto simp: len_entries_def)
  show "len_entries c' \<le> maxEntries c" if "1 \<le> maxEntries c"
    using that c2(2,3) card' pos by (auto simp: evict_cond_def split: if_splits)
  show "currentSize c' \<le> maxSize c" if "entry_size (h p) \<le> maxSize c"
  proof (cases "0 < len_entries c2")
    case True
    with c2(2,4) show ?thesis by (auto simp: evict_cond_def c')
  next
    case False
    from empty[OF this] cs that show ?thesis by (simp add: c')
  qed
qed

lemma Put_terminates:
  assumes inv: "cache_inv h c"
    and ok: "entries c key = None \<or> (2 \<le> maxEntries c \<and> entry_size (h p) \<le> maxSize c)"
  shows "\<exists>h' c'. Put h c key p now = Some (h', c')"
proof -
  define h1 where "h1 = h(p := (h p)\<lparr>Size := entry_size (h p), LastAccessed := now\<rparr>)"
  define K where "K = (case entries c key of None \<Rightarrow> {} | Some _ \<Rightarrow> {key})"
  define c1 where "c1 = (case entries c key of
                  Some existing \<Rightarrow>
                    removeFromOrder key (c\<lparr>currentSize := currentSize c - Size (h1 existing)\<rparr>)
                | None \<Rightarrow> c)"
  have inv1: "cache_inv h1 c" unfolding h1_def by (rule Put_heap_inv[OF inv])
  have c1: "cache_inv_except K h1 c1" "maxEntries c1 = maxEntries c" "maxSize c1 = maxSize c"
    using inv1 Put_held_out[OF inv1]
    by (auto simp: K_def c1_def cache_inv_def removeFromOrder_def split: option.splits)
  have "K = {} \<or> (int (card K) < maxEntries c1 \<and> entry_size (h p) \<le> maxSize c1)"
    using ok c1 by (auto simp: K_def split: option.splits)
  from evict_loop_terminates[OF c1(1) this]
  obtain c2 where "evict_loop h1 (entry_size (h p)) c1 = Some c2" by blast
  then show ?thesis
    unfolding Put_def Let_def c1_def[symmetric] h1_def[symmetric] by simp
qed

lemma entry_size_nonneg: "0 \<le> entry_size e"
  by (auto simp: entry_size_def intro!: add_nonneg_nonneg sum_list_nonneg)

lemma run_ops_inv:
  assumes "run_ops ops h c = Some (h', c')" and "cache_inv h c"
    and "\<forall>k q. entries c k = Some q \<longrightarrow> q \<in> set given"
    and "no_write_after_put given ops"
    and "1 \<le> maxEntries c" and "len_entries c \<le> maxEntries c" and "0 \<le> maxSize c"
  shows "cache_inv h' c' \<and> len_entries c' \<le> maxEntries c \<and> maxSize c' = maxSize c \<and>
         ((\<forall>q. entry_size (ht q) = entry_size (h q)) \<and> puts_fit (maxSize c) ops ht \<and>
          currentSize c \<le> maxSize c \<longrightarrow> currentSize c' \<le> maxSize c)"
  using assms
proof (induction ops h c arbitrary: given ht rule: run_ops.induct)
  case (1 h c)
  then show ?case by simp
next
  case (2 key now ops h c)
  obtain h1 c1 found where g: "Get h c key now = (h1, c1, found)"
    by (cases "Get h c key now") auto
  note G = Get_result[OF g]
  from 2(2) g have r: "run_ops ops h1 c1 = Some (h', c')" by simp
  have l: "len_entries c1 = len_entries c" using G by (simp add: len_entries_def)
  have s: "\<forall>k q. entries c1 k = Some q \<longrightarrow> q \<in> set given" using G 2(4) by simp
  from 2(5) have n: "no_write_after_put given ops" by simp
  from 2(1)[OF g[symmetric] refl r Get_inv[OF 2(3) g] s n, where ht = ht] G l 2(6,7,8)
  show ?case by simp
next
  case (3 key entry now ops h c)
  from 3(2) obtain h1 c1 where p: "Put h c key entry now = Some (h1, c1)"
    and r: "run_ops ops h1 c1 = Some (h', c')"
    by (auto split: option.splits)
  note P = Put_inv[OF 3(3) p]
  have s: "\<forall>k q. entries c1 k = Some q \<longrightarrow> q \<in> set (entry # given)"
    using P(9) 3(4) by auto
  from 3(5) have n: "no_write_after_put (entry # given) ops" by simp
  have e: "\<forall>q. entry_size (h1 q) = entry_size (h q)" by (simp add: P(7))
  from 3(1)[OF p refl r P(1) s n, where ht = ht] P(2,3) P(4)[OF 3(6)] P(5) 3(6,8) e
  show ?case by auto
next
  case (4 ops h c)
  from 4(2) have r: "run_ops ops h (Clear c) = Some (h', c')" by simp
  have l: "len_entries (Clear c) = 0" by (simp add: len_entries_def Clear_def)
  have m: "maxEntries (Clear c) = maxEntries c" "maxSize (Clear c) = maxSize c"
    "currentSize (Clear c) = 0"
    by (simp_all add: Clear_def)
  have s: "\<forall>k q. entries (Clear c) k = Some q \<longrightarrow> q \<in> set given" by (simp add: Clear_def)
  from 4(5) have n: "no_write_after_put given ops" by simp
  from 4(1)[OF r Clear_inv s n, where ht = ht] l m 4(6,8) show ?case by simp
next
  case (5 p e ops h c)
  from 5(2) have r: "run_ops ops (h(p := e)) c = Some (h', c')" by simp
  from 5(5) have n: "p \<notin> set given" "no_write_after_put given ops" by simp_all
  have i: "cache_inv (h(p := e)) c"
    unfolding cache_inv_def
  proof (rule cache_inv_frame[of "{}" h c])
    show "cache_inv_except {} h c" using 5(3) by (simp add: cache_inv_def)
    fix k q assume "entries c k = Some q"
    with 5(4) n(1) show "Size ((h(p := e)) q) = Size (h q) \<and>
        entry_size ((h(p := e)) q) = entry_size (h q)"
      by auto
  qed
  have e': "(\<forall>q. entry_size (ht q) = entry_size (h q)) \<Longrightarrow>
      (\<forall>q. entry_size ((ht(p := e)) q) = entry_size ((h(p := e)) q))"
    by simp
  note R = 5(1)[OF r i 5(4) n(2) 5(6,7,8), where ht = "ht(p := e)"]
  from R e' show ?case unfolding puts_fit.simps by blast
qed

lemma run_ops_total:
  assumes "cache_inv h c"
    and "\<forall>k q. entries c k = Some q \<longrightarrow> q \<in> set given"
    and "no_write_after_put given ops"
    and "2 \<le> maxEntries c" and "\<forall>q. entry_size (ht q) = entry_size (h q)"
    and "puts_fit (maxSize c) ops ht"
  shows "\<exists>h' c'. run_ops ops h c = Some (h', c')"
  using assms
proof (induction ops h c arbitrary: given ht rule: run_ops.induct)
  case (1 h c)
  then show ?case by simp
next
  case (2 key now ops h c)
  obtain h1 c1 found where g: "Get h c key now = (h1, c1, found)"
    by (cases "Get h c key now") auto
  note G = Get_result[OF g]
  have s: "\<forall>k q. entries c1 k = Some q \<longrightarrow> q \<in> set given" using G 2(3) by simp
  from 2(4) have n: "no_write_after_put given ops" by simp
  from 2(1)[OF g[symmetric] refl Get_inv[OF 2(2) g] s n, where ht = ht] G 2(5,6,7) g
  show ?case by simp
next
  case (3 key entry now ops h c)
  from 3(6,7) have "entry_size (h entry) \<le> maxSize c" by simp
  with Put_terminates[OF 3(2), of key entry now] 3(5)
  obtain h1 c1 where p: "Put h c key entry now = Some (h1, c1)" by auto
  note P = Put_inv[OF 3(2) p]
  have s: "\<forall>k q. entries c1 k = Some q \<longrightarrow> q \<in> set (entry # given)"
    using P(9) 3(3) by auto
  from 3(4) have n: "no_write_after_put (entry # given) ops" by simp
  have e: "\<forall>q. entry_size (ht q) = entry_size (h1 q)" using 3(6) by (simp add: P(7))
  from 3(1)[OF p refl P(1) s n _ e] P(2,3) 3(5,7) p show ?case by simp
next
  case (4 ops h c)
  have s: "\<forall>k q. entries (Clear c) k = Some q \<longrightarrow> q \<in> set given" by (simp add: Clear_def)
  from 4(4) have n: "no_write_after_put given ops" by simp
  from 4(1)[OF Clear_inv s n, where ht = ht] 4(5,6,7) show ?case by (simp add: Clear_def)
next
  case (5 p e ops h c)
  from 5(4) have n: "p \<notin> set given" "no_write_after_put given ops" by simp_all
  have i: "cache_inv (h(p := e)) c"
    unfolding cache_inv_def
  proof (rule cache_inv_frame[of "{}" h c])
    show "cache_inv_except {} h c" using 5(2) by (simp add: cache_inv_def)
    fix k q assume "entries c k = Some q"
    with 5(3) n(1) show "Size ((h(p := e)) q) = Size (h q) \<and>
        entry_size ((h(p := e)) q) = entry_size (h q)"
      by auto
  qed
  have e: "\<forall>q. entry_size ((ht(p := e)) q) = entry_size ((h(p := e)) q)" using 5(6) by simp
  from 5(7) have pf: "puts_fit (maxSize c) ops (ht(p := e))" by (simp only: puts_fit.simps)
  from 5(1)[OF i 5(3) n(2) 5(5) e pf] show ?case by (simp only: run_ops.simps)
qed

text \<open>
  Claim C3, as amended. Take a cache made by \<open>NewCache n\<close> with \<open>1 \<le> n\<close>, any heap of entry
  objects, and any finite sequence of \<open>Get\<close>, \<open>Put\<close>, \<open>Clear\<close> and assignments by the caller
  to entry objects, in which the caller never assigns to an object that it has passed to
  \<open>Put\<close> before (the same object may be put again, also under another key). Whenever the
  sequence returns, \<open>currentSize\<close> is the sum of the sizes of the stored entries and there
  are at most \<open>n\<close> of them; and \<open>currentSize\<close> is at most \<open>maxSize\<close> (100 MiB) when no
  single entry put is larger than \<open>maxSize\<close>. With \<open>2 \<le> n\<close> and no entry larger than
  \<open>maxSize\<close>, the sequence does return.
\<close>

theorem cache_invariants_after_ops:
  assumes "1 \<le> n" and "no_write_after_put [] ops"
  shows "(2 \<le> n \<and> puts_fit (maxSize (NewCache n)) ops h \<longrightarrow> run_ops ops h (NewCache n) \<noteq> None) \<and>
         (\<forall>h' c. run_ops ops h (NewCache n) = Some (h', c) \<longrightarrow>
              currentSize c = sum_sizes h' c \<and> len_entries c \<le> n \<and>
              (puts_fit (maxSize (NewCache n)) ops h \<longrightarrow> currentSize c \<le> maxSize c))"
proof (intro conjI impI allI)
  have s: "\<forall>k q. entries (NewCache n) k = Some q \<longrightarrow> q \<in> set []"
    by (simp add: NewCache_def)
  {
    assume a: "2 \<le> n \<and> puts_fit (maxSize (NewCache n)) ops h"
    then have "2 \<le> maxEntries (NewCache n)" by (simp add: NewCache_def)
    from run_ops_total[OF NewCache_inv s assms(2) this, where ht = h and h = h] a
    show "run_ops ops h (NewCache n) \<noteq> None" by auto
  }
  fix h' c assume r: "run_ops ops h (NewCache n) = Some (h', c)"
  have l: "len_entries (NewCache n) \<le> maxEntries (NewCache n)"
    using assms by (simp add: NewCache_def len_entries_def)
  have m: "1 \<le> maxEntries (NewCache n)" "0 \<le> maxSize (NewCache n)"
    using assms by (simp_all add: NewCache_def)
  note R = run_ops_inv[OF r NewCache_inv s assms(2) m(1) l m(2), where ht = h]
  from R show "currentSize c = sum_sizes h' c" by (simp add: cache_inv_sum)
  from R show "len_entries c \<le> n" by (simp add: NewCache_def)
  assume "puts_fit (maxSize (NewCache n)) ops h"
  with R show "currentSize c \<le> maxSize c" by (simp add: NewCache_def)
qed

lemmas cache_run_defs =
  Let_def Put_def Get_def moveToEnd_def removeFromOrder_def NewCache_def
  evict_loop.simps evictLRU_def evict_cond_def len_entries_def entry_size_def

lemma run_ops_example:
  assumes "run_ops [OpAssign 1 small_entry, OpPut ''a'' 1 1, OpGet ''a'' 2,
                    OpAssign 2 small_entry, OpPut ''b'' 2 3,
                    OpAssign 3 small_entry, OpPut ''a'' 3 4,
                    OpAssign 4 small_entry, OpPut ''c'' 4 5] zero_heap (NewCache 2) = Some (h, c)"
  shows "accessOrder c = [''a'', ''c''] \<and> currentSize c = 50"
  using assms
  by (simp add: cache_run_defs small_entry_def zero_heap_def) auto

text \<open>
  The invariants on a concrete sequence: four entries made and put, one of them read, on
  a cache for two entries.
\<close>

theorem cache_invariants_after_ops_witness:
  "(1::int) \<le> 2 \<and>
   no_write_after_put []
     [OpAssign 1 small_entry, OpPut ''a'' 1 1, OpGet ''a'' 2,
      OpAssign 2 small_entry, OpPut ''b'' 2 3,
      OpAssign 3 small_entry, OpPut ''a'' 3 4,
      OpAssign 4 small_entry, OpPut ''c'' 4 5] \<and>
   (2::int) \<le> 2 \<and>
   puts_fit (maxSize (NewCache 2))
     [OpAssign 1 small_entry, OpPut ''a'' 1 1, OpGet ''a'' 2,
      OpAssign 2 small_entry, OpPut ''b'' 2 3,
      OpAssign 3 small_entry, OpPut ''a'' 3 4,
      OpAssign 4 small_entry, OpPut ''c'' 4 5] zero_heap \<and>
   (\<exists>h c. run_ops
      [OpAssign 1 small_entry, OpPut ''a'' 1 1, OpGet ''a'' 2,
       OpAssign 2 small_entry, OpPut ''b'' 2 3,
       OpAssign 3 small_entry, OpPut ''a'' 3 4,
       OpAssign 4 small_entry, OpPut ''c'' 4 5] zero_heap (NewCache 2) = Some (h, c) \<and>
      accessOrder c = [''a'', ''c''] \<and>
      currentSize c = 50 \<and> sum_sizes h c = 50 \<and> len_entries c \<le> 2 \<and> currentSize c \<le> maxSize c)"
proof -
  let ?ops = "[OpAssign 1 small_entry, OpPut ''a'' 1 1, OpGet ''a'' 2,
      OpAssign 2 small_entry, OpPut ''b'' 2 3,
      OpAssign 3 small_entry, OpPut ''a'' 3 4,
      OpAssign 4 small_entry, OpPut ''c'' 4 5]"
  have n: "no_write_after_put [] ?ops" by simp
  have f: "puts_fit (maxSize (NewCache 2)) ?ops zero_heap"
    by (simp add: entry_size_def small_entry_def NewCache_def)
  have o: "(1::int) \<le> 2" by simp
  note T = cache_invariants_after_ops[OF o n, of zero_heap]
  from T f obtain h c where c: "run_ops ?ops zero_heap (NewCache 2) = Some (h, c)" by auto
  from c have "accessOrder c = [''a'', ''c''] \<and> currentSize c = 50"
    by (rule run_ops_example)
  with T c f n show ?thesis by auto
qed

text \<open>
  Claim C3 as stated fails: an entry larger than \<open>maxSize\<close> put into an empty cache is
  stored (the loop stops on the empty map), and \<open>currentSize\<close> exceeds \<open>maxSize\<close>.
\<close>

theorem oversized_entry_counterexample:
  "case run_ops [OpAssign 0 big_entry, OpPut ''k'' 0 0] zero_heap (NewCache 1) of
     None \<Rightarrow> False
   | Some (h, c) \<Rightarrow> entries c ''k'' = Some 0 \<and> \<not> currentSize c \<le> maxSize c"
  by (simp add: cache_run_defs big_entry_def)

text \<open>
  It also fails when the caller changes an entry that the cache holds and puts it again:
  \<open>Put\<close> has overwritten \<open>Size\<close> before it subtracts the old size, so the old size stays
  in \<open>currentSize\<close> and the new one is added on top of what was subtracted.
\<close>

lemma write_after_put_miscounts:
  "\<not> no_write_after_put []
       [OpAssign 0 abc_entry, OpPut ''k'' 0 1, OpAssign 0 abcdef_entry, OpPut ''k'' 0 2] \<and>
   (case run_ops [OpAssign 0 abc_entry, OpPut ''k'' 0 1, OpAssign 0 abcdef_entry, OpPut ''k'' 0 2]
           zero_heap (NewCache 2) of
      None \<Rightarrow> False
    | Some (h, c) \<Rightarrow> currentSize c = 3 \<and> sum_sizes h c = 6)"
  by (simp add: cache_run_defs sum_sizes_def abc_entry_def abcdef_entry_def)

text \<open>
  Claim C4. A cache with \<open>maxEntries = 2\<close>, three distinct keys, and three entries (any
  three pointers into any heap) whose sizes together fit under \<open>maxSize\<close>. After put \<open>K1\<close>,
  put \<open>K2\<close>, get \<open>K1\<close>, put \<open>K3\<close>, the cache holds exactly \<open>K1\<close> and \<open>K3\<close> with the
  entries that were put, their sizes computed and their time stamps set, and \<open>K2\<close> is
  gone.
\<close>

theorem lru_eviction_scenario:
  assumes "K1 \<noteq> K2" and "K1 \<noteq> K3" and "K2 \<noteq> K3"
    and "entry_size (h p1) + entry_size (h p2) + entry_size (h p3) \<le> maxSize (NewCache 2)"
  shows "\<exists>h' c. run_ops [OpPut K1 p1 t1, OpPut K2 p2 t2, OpGet K1 t3, OpPut K3 p3 t4] h (NewCache 2)
               = Some (h', c) \<and>
             dom (entries c) = {K1, K3} \<and> entries c K2 = None \<and>
             entries c K1 = Some p1 \<and> entries c K3 = Some p3 \<and>
             h' p1 = (h p1)\<lparr>Size := entry_size (h p1),
                            LastAccessed := (if p1 = p3 then t4 else t3)\<rparr> \<and>
             h' p3 = (h p3)\<lparr>Size := entry_size (h p3), LastAccessed := t4\<rparr> \<and>
             accessOrder c = [K1, K3] \<and>
             currentSize c = entry_size (h p1) + entry_size (h p3)"
proof -
  note s = entry_size_nonneg[of "h p1"] entry_size_nonneg[of "h p2"] entry_size_nonneg[of "h p3"]
  define s1 where "s1 = entry_size (h p1)"
  define s2 where "s2 = entry_size (h p2)"
  define s3 where "s3 = entry_size (h p3)"
  define h1 where "h1 = h(p1 := (h p1)\<lparr>Size := entry_size (h p1), LastAccessed := t1\<rparr>)"
  define h2 where "h2 = h1(p2 := (h1 p2)\<lparr>Size := entry_size (h1 p2), LastAccessed := t2\<rparr>)"
  define h3 where "h3 = h2(p1 := (h2 p1)\<lparr>LastAccessed := t3\<rparr>)"
  define h4 where "h4 = h3(p3 := (h3 p3)\<lparr>Size := entry_size (h3 p3), LastAccessed := t4\<rparr>)"
  have e1: "entry_size (h1 q) = entry_size (h q)" for q by (simp add: h1_def)
  have e2: "entry_size (h2 q) = entry_size (h q)" for q by (simp add: h2_def e1)
  have e3: "entry_size (h3 q) = entry_size (h q)" for q by (simp add: h3_def e2)
  have z2: "Size (h2 p2) = s2" by (simp add: h2_def e1 s2_def)
  have "Size (h3 q) = Size (h2 q)" for q by (simp add: h3_def)
  with z2 have z3: "Size (h3 p2) = s2" by simp
  have z4: "Size (h4 p2) = s2" using z3 by (simp add: h4_def e3 s2_def s3_def)
  let ?c1 = "\<lparr>entries = [K1 \<mapsto> p1], accessOrder = [K1], maxEntries = 2,
             maxSize = 100 * 1024 * 1024, currentSize = s1\<rparr>"
  let ?c2 = "\<lparr>entries = [K1 \<mapsto> p1, K2 \<mapsto> p2], accessOrder = [K1, K2], maxEntries = 2,
             maxSize = 100 * 1024 * 1024, currentSize = s1 + s2\<rparr>"
  let ?c3 = "\<lparr>entries = [K1 \<mapsto> p1, K2 \<mapsto> p2], accessOrder = [K2, K1],
             maxEntries = 2, maxSize = 100 * 1024 * 1024, currentSize = s1 + s2\<rparr>"
  let ?c3e = "\<lparr>entries = [K1 \<mapsto> p1], accessOrder = [K1],
             maxEntries = 2, maxSize = 100 * 1024 * 1024, currentSize = s1\<rparr>"
  let ?c4 = "\<lparr>entries = [K1 \<mapsto> p1, K3 \<mapsto> p3], accessOrder = [K1, K3],
             maxEntries = 2, maxSize = 100 * 1024 * 1024, currentSize = s1 + s3\<rparr>"
  have l1: "evict_loop h1 s1 (NewCache 2) = Some (NewCache 2)"
    by (subst evict_loop.simps) (simp add: evict_cond_def len_entries_def NewCache_def)
  have n1: "entries (NewCache 2) K1 = None" by (simp add: NewCache_def)
  have "Put h (NewCache 2) K1 p1 t1 =
      (case evict_loop h1 s1 (NewCache 2) of
         None \<Rightarrow> None
       | Some c2 \<Rightarrow> Some (h1, c2\<lparr>entries := (entries c2)(K1 \<mapsto> p1),
                          currentSize := currentSize c2 + s1,
                          accessOrder := accessOrder c2 @ [K1]\<rparr>))"
    by (simp add: Put_def Let_def h1_def s1_def n1 cong: option.case_cong)
  then have p1: "Put h (NewCache 2) K1 p1 t1 = Some (h1, ?c1)"
    by (simp only: l1 option.case) (simp add: NewCache_def)
  have l2: "evict_loop h2 s2 ?c1 = Some ?c1"
    using assms s
    by (subst evict_loop.simps)
       (simp add: evict_cond_def len_entries_def NewCache_def s1_def s2_def)
  have n2: "entries ?c1 K2 = None" using assms by simp
  have "Put h1 ?c1 K2 p2 t2 =
      (case evict_loop h2 s2 ?c1 of
         None \<Rightarrow> None
       | Some c2 \<Rightarrow> Some (h2, c2\<lparr>entries := (entries c2)(K2 \<mapsto> p2),
                          currentSize := currentSize c2 + s2,
                          accessOrder := accessOrder c2 @ [K2]\<rparr>))"
    using n2 by (simp add: Put_def Let_def h2_def s2_def e1 cong: option.case_cong)
  then have p2: "Put h1 ?c1 K2 p2 t2 = Some (h2, ?c2)"
    by (simp only: l2 option.case) simp
  have g3: "Get h2 ?c2 K1 t3 = (h3, ?c3, Some p1)"
    using assms by (simp add: Get_def moveToEnd_def removeFromOrder_def Let_def h3_def)
  have ev: "evictLRU h4 ?c3 = ?c3e"
    using assms by (simp add: evictLRU_def fun_upd_twist z4)
  have l4: "evict_loop h4 s3 ?c3 = Some ?c3e"
  proof -
    have c: "evict_cond s3 ?c3"
      using assms by (simp add: evict_cond_def len_entries_def)
    have nc: "\<not> evict_cond s3 ?c3e"
      using assms s by (simp add: evict_cond_def len_entries_def NewCache_def s1_def s3_def)
    show ?thesis
      by (subst evict_loop.simps, simp only: c if_True ev, subst evict_loop.simps,
          simp only: nc if_False)
  qed
  have n3: "entries ?c3 K3 = None"
    using assms by simp
  have "Put h3 ?c3 K3 p3 t4 =
      (case evict_loop h4 s3 ?c3 of
         None \<Rightarrow> None
       | Some c2 \<Rightarrow> Some (h4, c2\<lparr>entries := (entries c2)(K3 \<mapsto> p3),
                          currentSize := currentSize c2 + s3,
                          accessOrder := accessOrder c2 @ [K3]\<rparr>))"
    using n3 by (simp add: Put_def Let_def h4_def s3_def e3 cong: option.case_cong)
  then have p4: "Put h3 ?c3 K3 p3 t4 = Some (h4, ?c4)"
    by (simp only: l4 option.case) simp
  have r: "run_ops [OpPut K1 p1 t1, OpPut K2 p2 t2, OpGet K1 t3, OpPut K3 p3 t4] h (NewCache 2)
      = Some (h4, ?c4)"
    by (simp only: run_ops.simps p1 p2 g3 p4 option.case prod.case)
  have a1: "h4 p1 = (h p1)\<lparr>Size := entry_size (h p1),
                            LastAccessed := (if p1 = p3 then t4 else t3)\<rparr>"
    by (simp add: h4_def h3_def h2_def h1_def)
  have a3: "h4 p3 = (h p3)\<lparr>Size := entry_size (h p3), LastAccessed := t4\<rparr>"
    by (simp add: h4_def h3_def h2_def h1_def)
  have d: "dom (entries ?c4) = {K1, K3}" by auto
  have k2: "entries ?c4 K2 = None" using assms by simp
  have k1: "entries ?c4 K1 = Some p1" using assms by simp
  have k3: "entries ?c4 K3 = Some p3" by simp
  have ao: "accessOrder ?c4 = [K1, K3]" by simp
  have cu: "currentSize ?c4 = entry_size (h p1) + entry_size (h p3)"
    by (simp add: s1_def s3_def)
  from r d k2 k1 k3 a1 a3 ao cu show ?thesis
    by (intro exI[of _ h4] exI[of _ ?c4] conjI)
qed

text \<open>The scenario with three concrete keys and entries of 25, 3 and 6 bytes.\<close>

theorem lru_eviction_scenario_witness:
  "''K1'' \<noteq> ''K2'' \<and> ''K1'' \<noteq> ''K3'' \<and> ''K2'' \<noteq> ''K3'' \<and>
   entry_size (example_heap 1) + entry_size (example_heap 2) + entry_size (example_heap 3)
     \<le> maxSize (NewCache 2) \<and>
   (\<exists>h' c. run_ops [OpPut ''K1'' 1 10, OpPut ''K2'' 2 20, OpGet ''K1'' 30, OpPut ''K3'' 3 40]
               example_heap (NewCache 2) = Some (h', c) \<and>
             dom (entries c) = {''K1'', ''K3''} \<and> entries c ''K2'' = None \<and>
             entries c ''K1'' = Some 1 \<and> entries c ''K3'' = Some 3 \<and>
             h' 1 = small_entry\<lparr>Size := 25, LastAccessed := 30\<rparr> \<and>
             h' 3 = abcdef_entry\<lparr>Size := 6, LastAccessed := 40\<rparr> \<and>
             accessOrder c = [''K1'', ''K3''] \<and> currentSize c = 31)"
proof -
  have e: "entry_size (example_heap 1) = 25" "entry_size (example_heap 2) = 3"
    "entry_size (example_heap 3) = 6"
    by (simp_all add: example_heap_def entry_size_def small_entry_def abc_entry_def
        abcdef_entry_def)
  have eh: "example_heap 1 = small_entry" "example_heap 3 = abcdef_entry"
    by (simp_all add: example_heap_def)
  have k: "''K1'' \<noteq> ''K2''" "''K1'' \<noteq> ''K3''" "''K2'' \<noteq> ''K3''"
    by simp_all
  have f: "entry_size (example_heap 1) + entry_size (example_heap 2) + entry_size (example_heap 3)
       \<le> maxSize (NewCache 2)"
    unfolding e by (simp add: NewCache_def)
  note h = k f
  from lru_eviction_scenario[OF h, where ?t1.0 = 10 and ?t2.0 = 20 and ?t3.0 = 30 and ?t4.0 = 40]
  obtain h' c where r: "run_ops [OpPut ''K1'' 1 10, OpPut ''K2'' 2 20, OpGet ''K1'' 30,
        OpPut ''K3'' 3 40] example_heap (NewCache 2) = Some (h', c) \<and>
    dom (entries c) = {''K1'', ''K3''} \<and> entries c ''K2'' = None \<and>
    entries c ''K1'' = Some 1 \<and> entries c ''K3'' = Some 3 \<and>
    h' 1 = (example_heap 1)\<lparr>Size := entry_size (example_heap 1),
                            LastAccessed := (if (1::nat) = 3 then 40 else 30)\<rparr> \<and>
    h' 3 = (example_heap 3)\<lparr>Size := entry_size (example_heap 3), LastAccessed := 40\<rparr> \<and>
    accessOrder c = [''K1'', ''K3''] \<and>
    currentSize c = entry_size (example_heap 1) + entry_size (example_heap 3)"
    by (elim exE) (rule that)
  note r1 = r[THEN conjunct1]
  note r2 = r[THEN conjunct2, THEN conjunct1]
  note r3 = r[THEN conjunct2, THEN conjunct2, THEN conjunct1]
  note r4 = r[THEN conjunct2, THEN conjunct2, THEN conjunct2, THEN conjunct1]
  note r5 = r[THEN conjunct2, THEN conjunct2, THEN conjunct2, THEN conjunct2, THEN conjunct1]
  note r6 = r[THEN conjunct2, THEN conjunct2, THEN conjunct2, THEN conjunct2, THEN conjunct2,
      THEN conjunct1]
  note r7 = r[THEN conjunct2, THEN conjunct2, THEN conjunct2, THEN conjunct2, THEN conjunct2,
      THEN conjunct2, THEN conjunct1]
  note r8 = r[THEN conjunct2, THEN conjunct2, THEN conjunct2, THEN conjunct2, THEN conjunct2,
      THEN conjunct2, THEN conjunct2, THEN conjunct1]
  note r9 = r[THEN conjunct2, THEN conjunct2, THEN conjunct2, THEN conjunct2, THEN conjunct2,
      THEN conjunct2, THEN conjunct2, THEN conjunct2]
  have es: "entry_size small_entry = 25" "entry_size abcdef_entry = 6"
    by (simp_all add: entry_size_def small_entry_def abcdef_entry_def)
  from r6 have a1: "h' 1 = small_entry\<lparr>Size := 25, LastAccessed := 30\<rparr>"
    unfolding eh es by simp
  from r7 have a3: "h' 3 = abcdef_entry\<lparr>Size := 6, LastAccessed := 40\<rparr>"
    unfolding eh es .
  from r9 have cu: "currentSize c = 31"
    unfolding e by simp
  from k f r1 r2 r3 r4 r5 a1 a3 r8 cu show ?thesis
    by (intro conjI exI[of _ h'] exI[of _ c])
qed

text \<open>
  Claim C5 says that \<open>Put\<close> always returns, also for a key that is present when the cache
  is full. In a cache with \<open>maxEntries = 1\<close>, putting a key a second time does not, whatever
  the entries are: the key has left the LRU list but not the map, so the map stays
  non-empty, \<open>evictLRU\<close> has nothing to remove, and the loop condition never changes.
\<close>

theorem Put_existing_key_never_returns:
  "\<exists>h1 c1. Put h (NewCache 1) k p t1 = Some (h1, c1) \<and> entries c1 k = Some p \<and>
           Put h1 c1 k q t2 = None"
proof -
  define h1 where "h1 = h(p := (h p)\<lparr>Size := entry_size (h p), LastAccessed := t1\<rparr>)"
  define h2 where "h2 = h1(q := (h1 q)\<lparr>Size := entry_size (h1 q), LastAccessed := t2\<rparr>)"
  let ?c1 = "\<lparr>entries = [k \<mapsto> p], accessOrder = [k], maxEntries = 1,
             maxSize = 100 * 1024 * 1024, currentSize = entry_size (h p)\<rparr>"
  let ?c1' = "\<lparr>entries = [k \<mapsto> p], accessOrder = [], maxEntries = 1,
             maxSize = 100 * 1024 * 1024, currentSize = entry_size (h p) - Size (h2 p)\<rparr>"
  have l1: "evict_loop h1 (entry_size (h p)) (NewCache 1) = Some (NewCache 1)"
    by (subst evict_loop.simps) (simp add: evict_cond_def len_entries_def NewCache_def)
  have n1: "entries (NewCache 1) k = None" by (simp add: NewCache_def)
  have "Put h (NewCache 1) k p t1 =
      (case evict_loop h1 (entry_size (h p)) (NewCache 1) of
         None \<Rightarrow> None
       | Some c2 \<Rightarrow> Some (h1, c2\<lparr>entries := (entries c2)(k \<mapsto> p),
                          currentSize := currentSize c2 + entry_size (h p),
                          accessOrder := accessOrder c2 @ [k]\<rparr>))"
    by (simp add: Put_def Let_def h1_def n1 cong: option.case_cong)
  then have p1: "Put h (NewCache 1) k p t1 = Some (h1, ?c1)"
    by (simp only: l1 option.case) (simp add: NewCache_def)
  have "evict_cond (entry_size (h1 q)) ?c1'" by (simp add: evict_cond_def len_entries_def)
  moreover have "evictLRU h2 ?c1' = ?c1'" by (simp add: evictLRU_def)
  ultimately have "evict_loop h2 (entry_size (h1 q)) ?c1' = None" by (rule evict_loop_stuck)
  moreover have "Put h1 ?c1 k q t2 =
      (case evict_loop h2 (entry_size (h1 q)) ?c1' of
         None \<Rightarrow> None
       | Some c2 \<Rightarrow> Some (h2, c2\<lparr>entries := (entries c2)(k \<mapsto> q),
                          currentSize := currentSize c2 + entry_size (h1 q),
                          accessOrder := accessOrder c2 @ [k]\<rparr>))"
    by (simp add: Put_def Let_def h2_def removeFromOrder_def cong: option.case_cong)
  ultimately have "Put h1 ?c1 k q t2 = None"
    by (simp only: option.case)
  with p1 show ?thesis by simp
qed

section \<open>The block list: wildcard rules\<close>

lemma HasSuffix_iff: "HasSuffix s p \<longleftrightarrow> (\<exists>u. s = u @ p)"
proof
  assume "HasSuffix s p"
  then have "s = take (length s - length p) s @ p"
    by (metis HasSuffix_def append_take_drop_id)
  then show "\<exists>u. s = u @ p" ..
next
  assume "\<exists>u. s = u @ p"
  then show "HasSuffix s p" by (auto simp: HasSuffix_def)
qed

lemma HasPrefix_iff: "HasPrefix s p \<longleftrightarrow> (\<exists>u. s = p @ u)"
proof
  assume "HasPrefix s p"
  then have "s = p @ drop (length p) s"
    by (metis HasPrefix_def append_take_drop_id)
  then show "\<exists>u. s = p @ u" ..
next
  assume "\<exists>u. s = p @ u"
  then show "HasPrefix s p" by (auto simp: HasPrefix_def)
qed

lemma wildcard_loop_hit:
  assumes "fst (wildcard_loop ds host)"
  shows "\<exists>Y. snd (wildcard_loop ds host) = ''*.'' @ Y \<and> ''*.'' @ Y \<in> set ds \<and>
             wildcard_matches Y host"
  using assms
proof (induction ds)
  case Nil
  then show ?case by simp
next
  case (Cons d ds)
  show ?case
  proof (cases "HasPrefix d ''*.'' \<and> wildcard_matches (drop 2 d) host")
    case True
    then obtain Y where "d = ''*.'' @ Y" by (auto simp: HasPrefix_iff)
    with True show ?thesis by (auto simp: wildcard_matches_def)
  next
    case False
    then have "wildcard_loop (d # ds) host = wildcard_loop ds host"
      by (auto simp: wildcard_matches_def)
    with Cons show ?thesis by auto
  qed
qed

lemma wildcard_loop_miss:
  assumes "\<not> fst (wildcard_loop ds host)"
  shows "wildcard_loop ds host = (False, '''') \<and>
         (\<forall>X. ''*.'' @ X \<in> set ds \<longrightarrow> \<not> wildcard_matches X host)"
  using assms
proof (induction ds)
  case Nil
  then show ?case by simp
next
  case (Cons d ds)
  show ?case
  proof (cases "HasPrefix d ''*.''")
    case True
    then obtain Y where d: "d = ''*.'' @ Y" by (auto simp: HasPrefix_iff)
    with Cons.prems True have n: "\<not> wildcard_matches Y host"
      by (auto simp: wildcard_matches_def Let_def split: if_splits)
    with d True have "wildcard_loop (d # ds) host = wildcard_loop ds host"
      by (auto simp: wildcard_matches_def)
    with Cons d n show ?thesis by auto
  next
    case False
    then have "wildcard_loop (d # ds) host = wildcard_loop ds host" by simp
    moreover from False have "d \<noteq> ''*.'' @ X" for X by (auto simp: HasPrefix_iff)
    ultimately show ?thesis using Cons by auto
  qed
qed

text \<open>
  Claim C2, as amended. The host, lowercased and trimmed, is in neither rule set as it
  stands. Then \<open>IsBlocked\<close> answers true exactly when some wildcard rule \<open>*.X\<close> of the set
  matches the host (the host is \<open>X\<close> or ends with \<open>.X\<close>); the rule it returns is a wildcard
  rule of the set that matches the host, and it is \<open>*.X\<close> itself when \<open>*.X\<close> is the only
  wildcard rule that matches; a host that no wildcard rule matches gets \<open>(false, "")\<close>.
\<close>

theorem IsBlocked_wildcard:
  assumes "host = ToLower (TrimSpace host0)"
    and "host \<notin> set (blockedDomains f)" and "host \<notin> blockedIPs f"
  shows "(fst (IsBlocked f host0) \<longleftrightarrow>
            (\<exists>X. ''*.'' @ X \<in> set (blockedDomains f) \<and> wildcard_matches X host)) \<and>
         (fst (IsBlocked f host0) \<longrightarrow>
            (\<exists>Y. snd (IsBlocked f host0) = ''*.'' @ Y \<and> ''*.'' @ Y \<in> set (blockedDomains f) \<and>
                 wildcard_matches Y host)) \<and>
         (\<forall>X. ''*.'' @ X \<in> set (blockedDomains f) \<and> wildcard_matches X host \<and>
              (\<forall>Y. ''*.'' @ Y \<in> set (blockedDomains f) \<and> wildcard_matches Y host \<longrightarrow> Y = X)
              \<longrightarrow> IsBlocked f host0 = (True, ''*.'' @ X)) \<and>
         (\<not> fst (IsBlocked f host0) \<longrightarrow> IsBlocked f host0 = (False, ''''))"
proof -
  have eq: "IsBlocked f host0 = wildcard_loop (blockedDomains f) host"
    using assms by (simp add: IsBlocked_def)
  note hit = wildcard_loop_hit[of "blockedDomains f" host]
  note miss = wildcard_loop_miss[of "blockedDomains f" host]
  have a: "fst (IsBlocked f host0) \<longleftrightarrow>
            (\<exists>X. ''*.'' @ X \<in> set (blockedDomains f) \<and> wildcard_matches X host)"
    unfolding eq using hit miss by blast
  have b: "fst (IsBlocked f host0) \<longrightarrow>
            (\<exists>Y. snd (IsBlocked f host0) = ''*.'' @ Y \<and> ''*.'' @ Y \<in> set (blockedDomains f) \<and>
                 wildcard_matches Y host)"
    unfolding eq using hit by blast
  have c: "IsBlocked f host0 = (True, ''*.'' @ X)"
    if "''*.'' @ X \<in> set (blockedDomains f) \<and> wildcard_matches X host \<and>
        (\<forall>Y. ''*.'' @ Y \<in> set (blockedDomains f) \<and> wildcard_matches Y host \<longrightarrow> Y = X)" for X
  proof -
    from that a have t: "fst (IsBlocked f host0)" by blast
    with b obtain Y where Y: "snd (IsBlocked f host0) = ''*.'' @ Y"
      "''*.'' @ Y \<in> set (blockedDomains f)" "wildcard_matches Y host" by blast
    with that have "Y = X" by blast
    with t Y(1) show ?thesis by (cases "IsBlocked f host0") simp
  qed
  have d: "\<not> fst (IsBlocked f host0) \<longrightarrow> IsBlocked f host0 = (False, '''')"
    unfolding eq using miss by blast
  from a b c d show ?thesis by blast
qed

text \<open>
  The wildcard scenario of the specification: with \<open>*.mal.test\<close> on the list, the hosts
  \<open>a.b.mal.test\<close> and \<open>mal.test\<close> are blocked with that rule and \<open>notmal.test\<close> is not.
\<close>

theorem IsBlocked_wildcard_witness:
  "''a.b.mal.test'' = ToLower (TrimSpace '' A.b.MAL.test '') \<and>
   ''a.b.mal.test'' \<notin> set (blockedDomains \<lparr>blockedDomains = [''example.com'', ''*.mal.test''], blockedIPs = {''10.0.0.1''}\<rparr>) \<and>
   ''a.b.mal.test'' \<notin> blockedIPs \<lparr>blockedDomains = [''example.com'', ''*.mal.test''], blockedIPs = {''10.0.0.1''}\<rparr> \<and>
   wildcard_matches ''mal.test'' ''a.b.mal.test'' \<and>
   IsBlocked \<lparr>blockedDomains = [''example.com'', ''*.mal.test''], blockedIPs = {''10.0.0.1''}\<rparr>
     '' A.b.MAL.test '' = (True, ''*.mal.test'') \<and>
   IsBlocked \<lparr>blockedDomains = [''example.com'', ''*.mal.test''], blockedIPs = {''10.0.0.1''}\<rparr>
     ''mal.test'' = (True, ''*.mal.test'') \<and>
   IsBlocked \<lparr>blockedDomains = [''example.com'', ''*.mal.test''], blockedIPs = {''10.0.0.1''}\<rparr>
     ''notmal.test'' = (False, '''')"
proof -
  let ?f = "\<lparr>blockedDomains = [''example.com'', ''*.mal.test''], blockedIPs = {''10.0.0.1''}\<rparr>"
  have h: "''a.b.mal.test'' = ToLower (TrimSpace '' A.b.MAL.test '')"
    "''a.b.mal.test'' \<notin> set (blockedDomains ?f)" "''a.b.mal.test'' \<notin> blockedIPs ?f"
    by (simp_all add: ToLower_def TrimSpace_def is_space_def toLower_byte_def upper_letters_def
        lower_letters_def)
  have m: "wildcard_matches ''mal.test'' ''a.b.mal.test''"
    by (simp add: wildcard_matches_def HasSuffix_def)
  have u: "\<forall>Y. ''*.'' @ Y \<in> set (blockedDomains ?f) \<and> wildcard_matches Y ''a.b.mal.test''
             \<longrightarrow> Y = ''mal.test''"
    by simp
  note T = IsBlocked_wildcard[OF h]
  from T have "\<forall>X. ''*.'' @ X \<in> set (blockedDomains ?f) \<and>
        wildcard_matches X ''a.b.mal.test'' \<and>
        (\<forall>Y. ''*.'' @ Y \<in> set (blockedDomains ?f) \<and> wildcard_matches Y ''a.b.mal.test''
           \<longrightarrow> Y = X)
        \<longrightarrow> IsBlocked ?f '' A.b.MAL.test '' = (True, ''*.'' @ X)"
    by (elim conjE)
  then have "''*.'' @ ''mal.test'' \<in> set (blockedDomains ?f) \<and>
        wildcard_matches ''mal.test'' ''a.b.mal.test'' \<and>
        (\<forall>Y. ''*.'' @ Y \<in> set (blockedDomains ?f) \<and> wildcard_matches Y ''a.b.mal.test''
           \<longrightarrow> Y = ''mal.test'')
        \<longrightarrow> IsBlocked ?f '' A.b.MAL.test '' = (True, ''*.'' @ ''mal.test'')"
    by (rule spec)
  moreover have "''*.'' @ ''mal.test'' \<in> set (blockedDomains ?f)" by simp
  ultimately have 1: "IsBlocked ?f '' A.b.MAL.test '' = (True, ''*.mal.test'')"
    using m u by simp
  have 2: "IsBlocked ?f ''mal.test'' = (True, ''*.mal.test'')"
    by (simp add: IsBlocked_def ToLower_def TrimSpace_def is_space_def toLower_byte_def
        upper_letters_def lower_letters_def HasPrefix_def HasSuffix_def)
  have 3: "IsBlocked ?f ''notmal.test'' = (False, '''')"
    by (simp add: IsBlocked_def ToLower_def TrimSpace_def is_space_def toLower_byte_def
        upper_letters_def lower_letters_def HasPrefix_def HasSuffix_def)
  from h m 1 2 3 show ?thesis by (intro conjI)
qed

text \<open>
  Claim C2 as stated fails when two wildcard rules match one host: with the rules
  \<open>*.b.c\<close> and \<open>*.c\<close>, met in this order, the host \<open>a.b.c\<close> ends with \<open>.c\<close>, no exact rule
  matches it, and the rule returned is not \<open>*.c\<close>.
\<close>

theorem two_wildcards_counterexample:
  "''*.c'' \<in> set (blockedDomains \<lparr>blockedDomains = [''*.b.c'', ''*.c''], blockedIPs = {}\<rparr>) \<and>
   ToLower (TrimSpace ''a.b.c'') = ''a.b.c'' \<and>
   ''a.b.c'' \<notin> set (blockedDomains \<lparr>blockedDomains = [''*.b.c'', ''*.c''], blockedIPs = {}\<rparr>) \<and>
   ''a.b.c'' \<notin> blockedIPs \<lparr>blockedDomains = [''*.b.c'', ''*.c''], blockedIPs = {}\<rparr> \<and>
   HasSuffix ''a.b.c'' (''.'' @ ''c'') \<and>
   IsBlocked \<lparr>blockedDomains = [''*.b.c'', ''*.c''], blockedIPs = {}\<rparr> ''a.b.c''
     \<noteq> (True, ''*.c'')"
  by (simp add: IsBlocked_def ToLower_def TrimSpace_def is_space_def toLower_byte_def
      upper_letters_def lower_letters_def HasPrefix_def HasSuffix_def)

section \<open>The parser: destination and body\<close>

lemma SplitN_2:
  "SplitN s c 2 = (if c \<in> set s then [takeWhile (\<lambda>x. x \<noteq> c) s, tl (dropWhile (\<lambda>x. x \<noteq> c) s)] else [s])"
  by (simp add: numeral_2_eq_2)

lemma split_at_first:
  assumes "c \<in> set s"
  shows "s = takeWhile (\<lambda>x. x \<noteq> c) s @ c # tl (dropWhile (\<lambda>x. x \<noteq> c) s)"
    and "c \<notin> set (takeWhile (\<lambda>x. x \<noteq> c) s)"
proof -
  from assms have "dropWhile (\<lambda>x. x \<noteq> c) s \<noteq> []" by simp
  moreover from this have "hd (dropWhile (\<lambda>x. x \<noteq> c) s) = c"
    using hd_dropWhile[of "\<lambda>x. x \<noteq> c" s] by simp
  ultimately have "dropWhile (\<lambda>x. x \<noteq> c) s = c # tl (dropWhile (\<lambda>x. x \<noteq> c) s)"
    by (cases "dropWhile (\<lambda>x. x \<noteq> c) s") auto
  then show "s = takeWhile (\<lambda>x. x \<noteq> c) s @ c # tl (dropWhile (\<lambda>x. x \<noteq> c) s)"
    by (metis takeWhile_dropWhile_id)
  show "c \<notin> set (takeWhile (\<lambda>x. x \<noteq> c) s)"
    by (auto dest: set_takeWhileD)
qed

lemma extractHostAndPort_fields:
  assumes "extractHostAndPort up req = Inr req2"
  shows "Method req2 = Method req" "RequestTarget req2 = RequestTarget req"
    "Version req2 = Version req" "Headers req2 = Headers req" "Body req2 = Body req"
    "IsConnect req2 = IsConnect req"
  using assms
  by (auto simp: extractHostAndPort_def Let_def split: if_splits option.splits)

lemma readBody_fields:
  assumes "readBody req2 r = Inr (req, r')"
  shows "Method req = Method req2" "RequestTarget req = RequestTarget req2"
    "Version req = Version req2" "Headers req = Headers req2" "Host req = Host req2"
    "Port req = Port req2" "IsConnect req = IsConnect req2"
  using assms
  by (auto simp: readBody_def Let_def split: if_splits option.splits)

lemma Parse_cases:
  assumes "ParseHTTPRequest up reader = Inr (req, reader')"
  obtains (connect) l port where "ReadString reader = Some (l, reader')" "well_formed_line l"
      "Method (request_of_line l) = ''CONNECT''"
      "length (SplitN (RequestTarget (request_of_line l)) (CHR '':'') 2) = 2"
      "Atoi (SplitN (RequestTarget (request_of_line l)) (CHR '':'') 2 ! 1) = Some port"
      "req = (request_of_line l)\<lparr>IsConnect := True,
               Host := SplitN (RequestTarget (request_of_line l)) (CHR '':'') 2 ! 0, Port := port\<rparr>"
  | (other) l r1 hs r2 req2 where "ReadString reader = Some (l, r1)" "well_formed_line l"
      "Method (request_of_line l) \<noteq> ''CONNECT''"
      "read_headers r1 Map.empty = Inr (hs, r2)"
      "extractHostAndPort up ((request_of_line l)\<lparr>Headers := hs\<rparr>) = Inr req2"
      "readBody req2 r2 = Inr (req, reader')"
  using assms
  unfolding ParseHTTPRequest_def request_of_line_def well_formed_line_def Let_def
  by (auto split: option.splits if_splits sum.splits prod.splits)

lemma host_port_split:
  assumes "length (SplitN s (CHR '':'') 2) = 2"
  shows "s = SplitN s (CHR '':'') 2 ! 0 @ '':'' @ SplitN s (CHR '':'') 2 ! 1"
    and "CHR '':'' \<notin> set (SplitN s (CHR '':'') 2 ! 0)" and "CHR '':'' \<in> set s"
proof -
  from assms show c: "CHR '':'' \<in> set s" by (simp add: SplitN_2 split: if_splits)
  from split_at_first[OF c] c
  show "s = SplitN s (CHR '':'') 2 ! 0 @ '':'' @ SplitN s (CHR '':'') 2 ! 1"
    and "CHR '':'' \<notin> set (SplitN s (CHR '':'') 2 ! 0)"
    by (simp_all add: SplitN_2)
qed

text \<open>
  Claim C7, as amended. On every byte stream on which parsing succeeds, the host is taken
  as it is written, in the case the client used, and the port is whatever integer
  \<open>strconv.Atoi\<close> reads, with no check of its range: for \<open>CONNECT\<close> the target is
  \<open>host:port\<close> with the host up to the first colon; for an absolute-form target they are the
  host name and port of the parsed URI, the port 443 for \<open>https\<close> and 80 for \<open>http\<close> when
  the URI has none; otherwise they come from the \<open>Host\<close> header, split at its first colon,
  the port 80 when there is no colon.
\<close>

theorem resolved_destination:
  assumes "ParseHTTPRequest url_Parse reader = Inr (req, reader')"
  shows "(IsConnect req \<longrightarrow>
           (\<exists>portStr. RequestTarget req = Host req @ '':'' @ portStr \<and>
                CHR '':'' \<notin> set (Host req) \<and> Atoi portStr = Some (Port req))) \<and>
         (\<not> IsConnect req \<and> absolute_form (RequestTarget req) \<longrightarrow>
           (\<exists>u. url_Parse (RequestTarget req) = Some u \<and> Host req = Hostname u \<and>
                (if PortStr u = []
                 then Port req = (if HasPrefix (RequestTarget req) ''https://'' then 443 else 80)
                 else Atoi (PortStr u) = Some (Port req)))) \<and>
         (\<not> IsConnect req \<and> \<not> absolute_form (RequestTarget req) \<longrightarrow>
           (\<exists>hostHeader. Headers req ''host'' = Some hostHeader \<and>
                (if CHR '':'' \<in> set hostHeader
                 then \<exists>portStr. hostHeader = Host req @ '':'' @ portStr \<and>
                        CHR '':'' \<notin> set (Host req) \<and> Atoi portStr = Some (Port req)
                 else Host req = hostHeader \<and> Port req = 80)))"
  using assms
proof (cases rule: Parse_cases)
  case (connect l port)
  let ?t = "RequestTarget (request_of_line l)"
  from connect(6) have f: "IsConnect req" "RequestTarget req = ?t"
    "Host req = SplitN ?t (CHR '':'') 2 ! 0" "Port req = port"
    by simp_all
  from host_port_split[OF connect(4)] connect(5) f show ?thesis
    by auto
next
  case (other l r1 hs r2 req2)
  let ?r = "(request_of_line l)\<lparr>Headers := hs\<rparr>"
  note e = extractHostAndPort_fields[OF other(5)]
  note b = readBody_fields[OF other(6)]
  have nc: "\<not> IsConnect req" using e b by (simp add: request_of_line_def Let_def)
  have t: "RequestTarget req = RequestTarget ?r" "Headers req = Headers ?r"
    using e b by simp_all
  show ?thesis
  proof (cases "absolute_form (RequestTarget ?r)")
    case True
    with other(5) obtain u where "url_Parse (RequestTarget ?r) = Some u" "Host req2 = Hostname u"
      "if PortStr u = []
       then Port req2 = (if HasPrefix (RequestTarget ?r) ''https://'' then 443 else 80)
       else Atoi (PortStr u) = Some (Port req2)"
      unfolding extractHostAndPort_def absolute_form_def Let_def
      by (auto split: option.splits if_splits)
    with True nc t b show ?thesis by auto
  next
    case False
    with other(5) obtain hostHeader where h: "Headers ?r ''host'' = Some hostHeader"
      and hp: "if length (SplitN hostHeader (CHR '':'') 2) = 2
         then Host req2 = hd (SplitN hostHeader (CHR '':'') 2) \<and>
              Atoi (SplitN hostHeader (CHR '':'') 2 ! 1) = Some (Port req2)
         else Host req2 = hd (SplitN hostHeader (CHR '':'') 2) \<and> Port req2 = 80"
      unfolding extractHostAndPort_def absolute_form_def Let_def
      by (auto split: option.splits if_splits)
    have "if CHR '':'' \<in> set hostHeader
                 then \<exists>portStr. hostHeader = Host req2 @ '':'' @ portStr \<and>
                        CHR '':'' \<notin> set (Host req2) \<and> Atoi portStr = Some (Port req2)
                 else Host req2 = hostHeader \<and> Port req2 = 80"
    proof (cases "CHR '':'' \<in> set hostHeader")
      case True
      then have l2: "length (SplitN hostHeader (CHR '':'') 2) = 2" by (simp add: SplitN_2)
      from host_port_split[OF l2] hp l2 True show ?thesis by (auto simp: SplitN_2)
    next
      case False
      with hp show ?thesis by (simp add: SplitN_2)
    qed
    with False nc t b h show ?thesis by auto
  qed
qed

text \<open>
  Claim C6. When parsing a stream succeeds with a request that is not \<open>CONNECT\<close>, the
  request line and the header block have been read, the body is what follows them in the
  stream, up to the rest that the parser leaves unread; with no \<open>content-length\<close> header the
  body is empty, and with one its value parses as an integer from 0 to 10,485,760 and the
  body has exactly that many bytes. And when the header block of a request that is not
  \<open>CONNECT\<close> has a \<open>content-length\<close> that does not parse, is negative or is above
  10,485,760, parsing fails.
\<close>

theorem content_length_body:
  "(\<forall>req reader'.
      ParseHTTPRequest url_Parse reader = Inr (req, reader') \<and> \<not> IsConnect req \<longrightarrow>
      (\<exists>requestLine reader1 reader2.
          ReadString reader = Some (requestLine, reader1) \<and>
          read_headers reader1 Map.empty = Inr (Headers req, reader2) \<and>
          reader2 = Body req @ reader' \<and>
          (case Headers req ''content-length'' of
             None \<Rightarrow> Body req = []
           | Some v \<Rightarrow> (\<exists>n. Atoi v = Some n \<and> 0 \<le> n \<and> n \<le> 10485760 \<and>
                             int (length (Body req)) = n)))) \<and>
   (\<forall>requestLine reader1 hs reader2 v.
      ReadString reader = Some (requestLine, reader1) \<and> \<not> connect_line requestLine \<and>
      read_headers reader1 Map.empty = Inr (hs, reader2) \<and>
      hs ''content-length'' = Some v \<and>
      (case Atoi v of None \<Rightarrow> True | Some n \<Rightarrow> n < 0 \<or> 10485760 < n) \<longrightarrow>
      isl (ParseHTTPRequest url_Parse reader))"
proof (intro conjI allI impI)
  fix req reader'
  assume a: "ParseHTTPRequest url_Parse reader = Inr (req, reader') \<and> \<not> IsConnect req"
  then have p: "ParseHTTPRequest url_Parse reader = Inr (req, reader')" and nc: "\<not> IsConnect req"
    by simp_all
  from p show "\<exists>requestLine reader1 reader2.
          ReadString reader = Some (requestLine, reader1) \<and>
          read_headers reader1 Map.empty = Inr (Headers req, reader2) \<and>
          reader2 = Body req @ reader' \<and>
          (case Headers req ''content-length'' of
             None \<Rightarrow> Body req = []
           | Some v \<Rightarrow> (\<exists>n. Atoi v = Some n \<and> 0 \<le> n \<and> n \<le> 10485760 \<and>
                             int (length (Body req)) = n))"
  proof (cases rule: Parse_cases)
    case (connect l port)
    with nc show ?thesis by simp
  next
    case (other l r1 hs r2 req2)
    note e = extractHostAndPort_fields[OF other(5)]
    note b = readBody_fields[OF other(6)]
    have h: "Headers req = hs" "Headers req2 = hs" "Body req2 = []"
      using e b by (simp_all add: request_of_line_def Let_def)
    from other(6) h have "r2 = Body req @ reader' \<and>
          (case hs ''content-length'' of
             None \<Rightarrow> Body req = []
           | Some v \<Rightarrow> (\<exists>n. Atoi v = Some n \<and> 0 \<le> n \<and> n \<le> 10485760 \<and>
                             int (length (Body req)) = n))"
      unfolding readBody_def ReadFull_def
      by (auto split: option.splits if_splits)
    with other(1,4) h show ?thesis by auto
  qed
next
  fix requestLine reader1 hs reader2 v
  assume a: "ReadString reader = Some (requestLine, reader1) \<and> \<not> connect_line requestLine \<and>
      read_headers reader1 Map.empty = Inr (hs, reader2) \<and>
      hs ''content-length'' = Some v \<and>
      (case Atoi v of None \<Rightarrow> True | Some n \<Rightarrow> n < 0 \<or> 10485760 < n)"
  show "isl (ParseHTTPRequest url_Parse reader)"
  proof (cases "ParseHTTPRequest url_Parse reader")
    case (Inl e)
    then show ?thesis by simp
  next
    case (Inr x)
    obtain req reader' where x: "x = (req, reader')" by (cases x)
    from Inr[unfolded x] show ?thesis
    proof (cases rule: Parse_cases)
      case (connect l port)
      with a show ?thesis by (simp add: connect_line_def)
    next
      case (other l r1 hs' r2 req2)
      note e = extractHostAndPort_fields[OF other(5)]
      from other(1,4) a have "hs' = hs" "r2 = reader2" by simp_all
      with e have "Headers req2 ''content-length'' = Some v" using a by simp
      with other(6) a show ?thesis
        unfolding readBody_def by (auto split: option.splits if_splits)
    qed
  qed
qed

text \<open>
  Claim C7 as stated fails: the parser neither lowercases the host nor checks the port.
\<close>

theorem unchecked_destination_counterexample:
  "\<not> isl (ParseHTTPRequest plain_url_Parse connect_request) \<and>
   Host (fst (projr (ParseHTTPRequest plain_url_Parse connect_request))) = ''Example.COM'' \<and>
   Host (fst (projr (ParseHTTPRequest plain_url_Parse connect_request)))
     \<noteq> ToLower (Host (fst (projr (ParseHTTPRequest plain_url_Parse connect_request)))) \<and>
   Port (fst (projr (ParseHTTPRequest plain_url_Parse connect_request))) = 70000 \<and>
   \<not> Port (fst (projr (ParseHTTPRequest plain_url_Parse connect_request))) \<le> 65535"
  by code_simp

lemma sum_case_prodE:
  assumes "case s of Inl e \<Rightarrow> False | Inr (a, b) \<Rightarrow> P a b"
  obtains a b where "s = Inr (a, b)" "P a b"
  using assms by (cases s) auto

lemma option_case_prodE:
  assumes "case s of None \<Rightarrow> False | Some (a, b) \<Rightarrow> P a b"
  obtains a b where "s = Some (a, b)" "P a b"
  using assms by (cases s) auto

lemma connect_request_parsed:
  "case ParseHTTPRequest plain_url_Parse connect_request of
     Inl e \<Rightarrow> False
   | Inr (req, r) \<Rightarrow> IsConnect req \<and> Host req = ''Example.COM'' \<and> Port req = 70000 \<and>
       RequestTarget req = ''Example.COM:70000'' \<and> r = crlf"
  by code_simp

lemma post_request_parsed:
  "case ParseHTTPRequest plain_url_Parse post_request of
     Inl e \<Rightarrow> False
   | Inr (req, r) \<Rightarrow> \<not> IsConnect req \<and> absolute_form (RequestTarget req) \<and>
       Host req = ''Example.test'' \<and> Port req = 8080 \<and> Body req = ''abc'' \<and> r = ''de'' \<and>
       Headers req ''content-length'' = Some ''3''"
  by code_simp

lemma origin_request_parsed:
  "case ParseHTTPRequest plain_url_Parse origin_request of
     Inl e \<Rightarrow> False
   | Inr (req, r) \<Rightarrow> \<not> IsConnect req \<and> \<not> absolute_form (RequestTarget req) \<and>
       Headers req ''host'' = Some ''Example.test:8080'' \<and>
       Host req = ''Example.test'' \<and> Port req = 8080 \<and> Body req = [] \<and> r = []"
  by code_simp

text \<open>The three ways of resolving the destination, each on a concrete request.\<close>

theorem resolved_destination_witness:
  "(\<exists>req r. ParseHTTPRequest plain_url_Parse connect_request = Inr (req, r) \<and> IsConnect req \<and>
      Host req = ''Example.COM'' \<and> Port req = 70000 \<and>
      (\<exists>portStr. RequestTarget req = Host req @ '':'' @ portStr \<and>
                CHR '':'' \<notin> set (Host req) \<and> Atoi portStr = Some (Port req))) \<and>
   (\<exists>req r. ParseHTTPRequest plain_url_Parse post_request = Inr (req, r) \<and> \<not> IsConnect req \<and>
      absolute_form (RequestTarget req) \<and> Host req = ''Example.test'' \<and> Port req = 8080 \<and>
      (\<exists>u. plain_url_Parse (RequestTarget req) = Some u \<and> Host req = Hostname u)) \<and>
   (\<exists>req r. ParseHTTPRequest plain_url_Parse origin_request = Inr (req, r) \<and> \<not> IsConnect req \<and>
      \<not> absolute_form (RequestTarget req) \<and> Host req = ''Example.test'' \<and> Port req = 8080 \<and>
      (\<exists>hostHeader. Headers req ''host'' = Some hostHeader))"
proof (intro conjI)
  from connect_request_parsed obtain req r where
    p: "ParseHTTPRequest plain_url_Parse connect_request = Inr (req, r)"
    and f: "IsConnect req \<and> Host req = ''Example.COM'' \<and> Port req = 70000 \<and>
       RequestTarget req = ''Example.COM:70000'' \<and> r = crlf"
    by (rule sum_case_prodE)
  from f have c: "IsConnect req" by simp
  note resolved_destination[OF p, THEN conjunct1, THEN mp, OF c]
  with p f show "\<exists>req r. ParseHTTPRequest plain_url_Parse connect_request = Inr (req, r) \<and>
      IsConnect req \<and> Host req = ''Example.COM'' \<and> Port req = 70000 \<and>
      (\<exists>portStr. RequestTarget req = Host req @ '':'' @ portStr \<and>
                CHR '':'' \<notin> set (Host req) \<and> Atoi portStr = Some (Port req))"
    by (intro exI[of _ req] exI[of _ r]) simp
next
  from post_request_parsed obtain req r where
    p: "ParseHTTPRequest plain_url_Parse post_request = Inr (req, r)"
    and f: "\<not> IsConnect req \<and> absolute_form (RequestTarget req) \<and>
       Host req = ''Example.test'' \<and> Port req = 8080 \<and> Body req = ''abc'' \<and> r = ''de'' \<and>
       Headers req ''content-length'' = Some ''3''"
    by (rule sum_case_prodE)
  from f have c: "\<not> IsConnect req \<and> absolute_form (RequestTarget req)" by simp
  from resolved_destination[OF p, THEN conjunct2, THEN conjunct1, THEN mp, OF c]
  obtain u where "plain_url_Parse (RequestTarget req) = Some u \<and> Host req = Hostname u"
    by blast
  with p f show "\<exists>req r. ParseHTTPRequest plain_url_Parse post_request = Inr (req, r) \<and>
      \<not> IsConnect req \<and> absolute_form (RequestTarget req) \<and> Host req = ''Example.test'' \<and>
      Port req = 8080 \<and> (\<exists>u. plain_url_Parse (RequestTarget req) = Some u \<and> Host req = Hostname u)"
    by (intro exI[of _ req] exI[of _ r]) simp
next
  from origin_request_parsed obtain req r where
    p: "ParseHTTPRequest plain_url_Parse origin_request = Inr (req, r)"
    and f: "\<not> IsConnect req \<and> \<not> absolute_form (RequestTarget req) \<and>
       Headers req ''host'' = Some ''Example.test:8080'' \<and>
       Host req = ''Example.test'' \<and> Port req = 8080 \<and> Body req = [] \<and> r = []"
    by (rule sum_case_prodE)
  from f have c: "\<not> IsConnect req \<and> \<not> absolute_form (RequestTarget req)" by simp
  from resolved_destination[OF p, THEN conjunct2, THEN conjunct2, THEN mp, OF c]
  obtain hostHeader where "Headers req ''host'' = Some hostHeader"
    by blast
  with p f show "\<exists>req r. ParseHTTPRequest plain_url_Parse origin_request = Inr (req, r) \<and>
      \<not> IsConnect req \<and> \<not> absolute_form (RequestTarget req) \<and> Host req = ''Example.test'' \<and>
      Port req = 8080 \<and> (\<exists>hostHeader. Headers req ''host'' = Some hostHeader)"
    by (intro exI[of _ req] exI[of _ r]) simp
qed

lemma negative_length_request_read:
  "case ReadString negative_length_request of
     None \<Rightarrow> False
   | Some (l, r1) \<Rightarrow> \<not> connect_line l \<and>
       (case read_headers r1 Map.empty of
          Inl e \<Rightarrow> False
        | Inr (hs, r2) \<Rightarrow> hs ''content-length'' = Some ''-1'')"
  by code_simp

lemma Atoi_minus_one: "Atoi ''-1'' = Some (- 1)"
  by code_simp

text \<open>A request with a body of three bytes, and one with a negative \<open>Content-Length\<close>.\<close>

theorem content_length_body_witness:
  "(\<exists>req r. ParseHTTPRequest plain_url_Parse post_request = Inr (req, r) \<and> \<not> IsConnect req \<and>
      Headers req ''content-length'' = Some ''3'' \<and> Body req = ''abc'' \<and> r = ''de'' \<and>
      (\<exists>requestLine reader1 reader2.
          ReadString post_request = Some (requestLine, reader1) \<and>
          read_headers reader1 Map.empty = Inr (Headers req, reader2) \<and>
          reader2 = Body req @ r)) \<and>
   (\<exists>requestLine reader1 hs reader2.
      ReadString negative_length_request = Some (requestLine, reader1) \<and>
      \<not> connect_line requestLine \<and>
      read_headers reader1 Map.empty = Inr (hs, reader2) \<and>
      hs ''content-length'' = Some ''-1'') \<and>
   isl (ParseHTTPRequest plain_url_Parse negative_length_request)"
proof -
  note T = content_length_body[of plain_url_Parse post_request, THEN conjunct1, THEN spec,
      THEN spec, THEN mp]
  note N = content_length_body[of plain_url_Parse negative_length_request, THEN conjunct2,
      THEN spec, THEN spec, THEN spec, THEN spec, THEN spec, THEN mp]
  from post_request_parsed obtain req r where
    p: "ParseHTTPRequest plain_url_Parse post_request = Inr (req, r)"
    and f: "\<not> IsConnect req \<and> absolute_form (RequestTarget req) \<and>
       Host req = ''Example.test'' \<and> Port req = 8080 \<and> Body req = ''abc'' \<and> r = ''de'' \<and>
       Headers req ''content-length'' = Some ''3''"
    by (rule sum_case_prodE)
  from f have c: "\<not> IsConnect req" by simp
  from T[OF conjI[OF p c]] obtain requestLine reader1 reader2 where
    "ReadString post_request = Some (requestLine, reader1) \<and>
          read_headers reader1 Map.empty = Inr (Headers req, reader2) \<and>
          reader2 = Body req @ r"
    by blast
  with p f have 1: "\<exists>req r. ParseHTTPRequest plain_url_Parse post_request = Inr (req, r) \<and>
      \<not> IsConnect req \<and>
      Headers req ''content-length'' = Some ''3'' \<and> Body req = ''abc'' \<and> r = ''de'' \<and>
      (\<exists>requestLine reader1 reader2.
          ReadString post_request = Some (requestLine, reader1) \<and>
          read_headers reader1 Map.empty = Inr (Headers req, reader2) \<and>
          reader2 = Body req @ r)"
    by (intro exI[of _ req] exI[of _ r]) blast
  from negative_length_request_read obtain l r1 where
    n1: "ReadString negative_length_request = Some (l, r1)"
    and n2: "\<not> connect_line l \<and>
       (case read_headers r1 Map.empty of
          Inl e \<Rightarrow> False
        | Inr (hs, r2) \<Rightarrow> hs ''content-length'' = Some ''-1'')"
    by (rule option_case_prodE)
  from n2 have n3: "\<not> connect_line l" by simp
  from n2 have "case read_headers r1 Map.empty of
          Inl e \<Rightarrow> False
        | Inr (hs, r2) \<Rightarrow> hs ''content-length'' = Some ''-1''"
    by simp
  then obtain hs r2 where n4: "read_headers r1 Map.empty = Inr (hs, r2)"
    and n5: "hs ''content-length'' = Some ''-1''"
    by (rule sum_case_prodE)
  have n6: "case Atoi ''-1'' of None \<Rightarrow> True | Some n \<Rightarrow> n < 0 \<or> 10485760 < n"
    by (simp add: Atoi_minus_one)
  from n1 n3 n4 n5 have 2: "\<exists>requestLine reader1 hs reader2.
      ReadString negative_length_request = Some (requestLine, reader1) \<and>
      \<not> connect_line requestLine \<and>
      read_headers reader1 Map.empty = Inr (hs, reader2) \<and>
      hs ''content-length'' = Some ''-1''"
    by blast
  have 3: "isl (ParseHTTPRequest plain_url_Parse negative_length_request)"
    by (rule N[OF conjI[OF n1 conjI[OF n3 conjI[OF n4 conjI[OF n5 n6]]]]])
  from 1 2 3 show ?thesis by (intro conjI)
qed

section \<open>The parser and the serializer: the round trip\<close>











lemma toLower_idem: "toLower_byte (toLower_byte c) = toLower_byte c"
  by (simp add: toLower_byte_def upper_letters_def lower_letters_def)


lemma ToLower_idem: "ToLower (ToLower s) = ToLower s"
  by (simp add: ToLower_def toLower_idem)


























text \<open>
  Why the amended claim asks for a rewritten target without space: \<open>SerializeRequest\<close>
  writes \<open>parsedURL.Path\<close>, in which Go has decoded the percent escapes, so the target
  \<open>http://example.test/a%20b\<close> goes upstream as \<open>GET /a b HTTP/1.1\<close>, and a second parse
  reads the target \<open>/a\<close>.
\<close>

lemma escaped_space_not_restored:
  "\<not> isl (ParseHTTPRequest plain_url_Parse escaped_space_request) \<and>
   map_option origin_form (plain_url_Parse ''http://example.test/a%20b'') = Some ''/a b'' \<and>
   SerializeRequest plain_url_Parse
      (fst (projr (ParseHTTPRequest plain_url_Parse escaped_space_request))) [''host'']
     = ''GET /a b HTTP/1.1'' @ crlf @ ''Host: example.test'' @ crlf @ crlf \<and>
   map_sum id (RequestTarget \<circ> fst)
     (ParseHTTPRequest plain_url_Parse
        (SerializeRequest plain_url_Parse
           (fst (projr (ParseHTTPRequest plain_url_Parse escaped_space_request))) [''host'']))
     = Inr ''/a''"
  by code_simp





section \<open>The server: error responses, authentication, forwarding failures\<close>

lemma conn_Write_open:
  assumes "room c = None"
  shows "conn_Write c d = (c\<lparr>written := written c @ d\<rparr>, length d, False)"
  using assms by (simp add: conn_Write_def)

lemma writeAll_open:
  assumes "room c = None"
  shows "writeAll c d 0 = (c\<lparr>written := written c @ d\<rparr>, length d, False)"
proof (cases "d = []")
  case True
  then show ?thesis by (subst writeAll.simps) simp
next
  case False
  have "writeAll (c\<lparr>written := written c @ d\<rparr>) d (length d) =
        (c\<lparr>written := written c @ d\<rparr>, length d, False)"
    by (subst writeAll.simps) simp
  with False show ?thesis
    by (subst writeAll.simps) (simp add: conn_Write_open[OF assms])
qed

lemma sendErrorResponse_open:
  assumes "room c = None"
  shows "sendErrorResponse c code reason = c\<lparr>written := written c @ error_response code reason\<rparr>"
  using assms
  by (simp add: sendErrorResponse_def Let_def conn_Write_open error_response_def error_body_def
      crlf_def)

lemma ReadString_split:
  assumes "ReadString r = Some (l, r')"
  shows "r = l @ r'"
proof -
  from assms have nl: "CHR 0x0A \<in> set r"
    and l: "l = takeWhile (\<lambda>c. c \<noteq> CHR 0x0A) r @ [CHR 0x0A]"
    and r': "r' = tl (dropWhile (\<lambda>c. c \<noteq> CHR 0x0A) r)"
    by (auto simp: ReadString_def split: if_splits)
  from split_at_first(1)[OF nl] show ?thesis by (simp add: l r')
qed

lemma delivered_Nil [simp]: "delivered c [] = []"
  by (simp add: delivered_def split: option.splits)

lemma conn_after_Nil [simp]: "conn_after c [] = c"
  by (cases c) (simp add: conn_after_def delivered_def split: option.splits)

lemma cut_short_Nil [simp]: "\<not> cut_short c []"
  by (simp add: cut_short_def split: option.splits)

lemma conn_after_fields [simp]:
  "written (conn_after c s) = written c @ delivered c s"
  by (simp add: conn_after_def)

lemma delivered_append:
  "delivered c (a @ b) = delivered c a @ delivered (conn_after c a) b"
  by (simp add: delivered_def conn_after_def split: option.splits)



lemma delivered_open: "room c = None \<Longrightarrow> delivered c s = s"
  by (simp add: delivered_def)

lemma delivered_cut: "cut_short c a \<Longrightarrow> delivered c (a @ b) = delivered c a"
  by (auto simp: delivered_def cut_short_def split: option.splits)


text \<open>One \<open>Write\<close>, and the loop of \<open>writeAll\<close>, on any connection.\<close>

lemma conn_Write_any:
  "conn_Write c d = (conn_after c d, length (delivered c d), cut_short c d)"
  by (cases c)
     (auto simp: conn_Write_def conn_after_def delivered_def cut_short_def split: option.splits)


lemma sendErrorResponse_any:
  "sendErrorResponse c code reason = conn_after c (error_response code reason)"
  by (simp add: sendErrorResponse_def Let_def conn_Write_any error_response_def error_body_def
      crlf_def)




lemma Parse_connect_headers:
  assumes "ParseHTTPRequest url_Parse reader = Inr (req, reader')" and "IsConnect req"
  shows "Headers req = Map.empty \<and> Method req = ''CONNECT''"
  using assms(1)
proof (cases rule: Parse_cases)
  case (connect l port)
  then show ?thesis by (simp add: request_of_line_def Let_def)
next
  case (other l r1 hs r2 req2)
  from extractHostAndPort_fields(6)[OF other(5)] readBody_fields(7)[OF other(6)]
  have "\<not> IsConnect req" by (simp add: request_of_line_def Let_def)
  with assms(2) show ?thesis by simp
qed

text \<open>
  Claim C10, as amended. With a non-empty \<open>authentication_token\<close>, every request that
  parses as \<open>CONNECT\<close> is answered with the 407 response and logged with action
  \<open>AUTH_FAILED\<close> and status 407, whatever follows the request line in the stream: the parser
  returns for \<open>CONNECT\<close> before it reads any header, the header map is empty, and the lookup
  of \<open>proxy-authorization\<close> gives the empty string. The client receives the 407 response,
  as much of it as its connection takes; the cache and its entries are not touched. A
  request that does not parse, a \<open>CONNECT\<close> request with a malformed target among them, is
  answered with the 400 response and logged with action \<open>ERROR\<close> and status 400.
\<close>

theorem connect_with_token_always_407:
  assumes "AuthToken cfg \<noteq> []"
  shows "(\<forall>req reader'.
            ParseHTTPRequest url_Parse reader = Inr (req, reader') \<and> IsConnect req \<longrightarrow>
            Method req = ''CONNECT'' \<and> Headers req = Map.empty \<and>
            header_or_empty req ''proxy-authorization'' = [] \<and>
            out_client (handleConnection url_Parse cfg flt cache h w reader c) =
              sendErrorResponse c 407 ''Proxy Authentication Required'' \<and>
            written (out_client (handleConnection url_Parse cfg flt cache h w reader c)) =
              written c @ delivered c (error_response 407 ''Proxy Authentication Required'') \<and>
            (room c = None \<longrightarrow>
               written (out_client (handleConnection url_Parse cfg flt cache h w reader c)) =
               written c @ error_response 407 ''Proxy Authentication Required'') \<and>
            out_log (handleConnection url_Parse cfg flt cache h w reader c) =
              [\<lparr>Timestamp = time_now w, ClientIP = clientIP w, ClientPort = clientPort w,
                DestinationHost = Host req, DestinationPort = Port req, Method_l = ''CONNECT'',
                RequestTarget_l = RequestTarget req, Action = ''AUTH_FAILED'',
                UpstreamStatus = 407, BytesUpstream = 0, BytesDownstream = 0,
                BlockedRule = Note []\<rparr>] \<and>
            out_cache (handleConnection url_Parse cfg flt cache h w reader c) = cache \<and>
            out_heap (handleConnection url_Parse cfg flt cache h w reader c) = h) \<and>
         (\<forall>err.
            ParseHTTPRequest url_Parse reader = Inl err \<longrightarrow>
            written (out_client (handleConnection url_Parse cfg flt cache h w reader c)) =
              written c @ delivered c (error_response 400 ''Bad Request'') \<and>
            out_log (handleConnection url_Parse cfg flt cache h w reader c) =
              [\<lparr>Timestamp = time_now w, ClientIP = clientIP w, ClientPort = clientPort w,
                DestinationHost = [], DestinationPort = 0, Method_l = ''UNKNOWN'',
                RequestTarget_l = [], Action = ''ERROR'',
                UpstreamStatus = 400, BytesUpstream = 0, BytesDownstream = 0,
                BlockedRule = ParseFailure err\<rparr>])"
proof (intro conjI allI impI)
  let ?out = "handleConnection url_Parse cfg flt cache h w reader c"
  {
    fix err assume p: "ParseHTTPRequest url_Parse reader = Inl err"
    show "written (out_client ?out) = written c @ delivered c (error_response 400 ''Bad Request'')"
      unfolding handleConnection_def p by (simp add: sendErrorResponse_any)
    show "out_log ?out =
              [\<lparr>Timestamp = time_now w, ClientIP = clientIP w, ClientPort = clientPort w,
                DestinationHost = [], DestinationPort = 0, Method_l = ''UNKNOWN'',
                RequestTarget_l = [], Action = ''ERROR'',
                UpstreamStatus = 400, BytesUpstream = 0, BytesDownstream = 0,
                BlockedRule = ParseFailure err\<rparr>]"
      unfolding handleConnection_def p by (simp add: logRequest_def)
  }
  fix req reader'
  assume a: "ParseHTTPRequest url_Parse reader = Inr (req, reader') \<and> IsConnect req"
  then have p: "ParseHTTPRequest url_Parse reader = Inr (req, reader')" and ic: "IsConnect req"
    by simp_all
  have hm: "Headers req = Map.empty \<and> Method req = ''CONNECT''"
    by (rule Parse_connect_headers[OF p ic])
  from hm show "Method req = ''CONNECT''" and "Headers req = Map.empty" by simp_all
  from hm show e: "header_or_empty req ''proxy-authorization'' = []"
    by (simp add: header_or_empty_def)
  with assms(1) have "AuthToken cfg \<noteq> [] \<and>
      header_or_empty req ''proxy-authorization'' \<noteq> AuthToken cfg"
    by auto
  then have o: "?out =
           \<lparr>out_client = sendErrorResponse c 407 ''Proxy Authentication Required'',
            out_cache = cache, out_heap = h,
            out_log = [logRequest w (Host req) (Port req) (Method req) (RequestTarget req)
                         ''AUTH_FAILED'' 407 0 0 (Note [])]\<rparr>"
    unfolding handleConnection_def p by simp
  show 1: "out_client ?out = sendErrorResponse c 407 ''Proxy Authentication Required''"
    unfolding o by simp
  show 2: "written (out_client ?out) =
      written c @ delivered c (error_response 407 ''Proxy Authentication Required'')"
    unfolding 1 by (simp add: sendErrorResponse_any)
  show "written (out_client ?out) =
      written c @ error_response 407 ''Proxy Authentication Required''" if "room c = None"
    unfolding 2 using that by (simp add: delivered_open)
  show "out_log ?out =
           [\<lparr>Timestamp = time_now w, ClientIP = clientIP w, ClientPort = clientPort w,
             DestinationHost = Host req, DestinationPort = Port req, Method_l = ''CONNECT'',
             RequestTarget_l = RequestTarget req, Action = ''AUTH_FAILED'',
             UpstreamStatus = 407, BytesUpstream = 0, BytesDownstream = 0,
             BlockedRule = Note []\<rparr>]"
    unfolding o using hm by (simp add: logRequest_def)
  show "out_cache ?out = cache" "out_heap ?out = h"
    unfolding o by simp_all
qed

lemma HandleCONNECT_unreachable:
  assumes "\<not> dial_ok up" and "room c = None"
  shows "HandleCONNECT req up c = (c\<lparr>written := written c @ bare_502\<rparr>, Some FailedToConnect)"
  using assms by (simp add: HandleCONNECT_def conn_Write_open bare_502_def crlf_def)

lemma Get_miss:
  assumes "entries ca key = None"
  shows "Get h ca key t = (h, ca, None)"
  using assms by (simp add: Get_def)

lemma handleConnection_forward:
  assumes "ParseHTTPRequest url_Parse reader = Inr (req, reader')"
    and "\<not> auth_fails cfg req" and "\<not> IsConnect req"
    and "\<not> fst (IsBlocked flt (Host req))" and "\<not> cache_hit cache w req"
  shows "handleConnection url_Parse cfg flt cache h w reader c =
         handle_forward url_Parse cache h w req c"
proof -
  obtain rule where b: "IsBlocked flt (Host req) = (False, rule)"
    using assms(4) by (cases "IsBlocked flt (Host req)") auto
  have "(case (if MakeCacheKey (Method req) (RequestTarget req) \<noteq> [] then cache else None) of
                    None \<Rightarrow> handle_forward url_Parse cache h w req c
                  | Some ca \<Rightarrow>
                      (case Get h ca (MakeCacheKey (Method req) (RequestTarget req)) (time_now w) of
                         (h', ca', Some cachedEntry) \<Rightarrow>
                           \<lparr>out_client = serveCachedResponse c (h' cachedEntry),
                            out_cache = Some ca', out_heap = h',
                            out_log = [logRequest w (Host req) (Port req) (Method req)
                                         (RequestTarget req) ''CACHE_HIT''
                                         (StatusCode (h' cachedEntry)) 0
                                         (int (length (Body_c (h' cachedEntry)))) (Note [])]\<rparr>
                       | (h', ca', None) \<Rightarrow> handle_forward url_Parse (Some ca') h' w req c))
        = handle_forward url_Parse cache h w req c"
    using assms(5) by (auto simp: cache_hit_def Get_miss split: option.splits)
  with assms(2,3) b show ?thesis
    unfolding handleConnection_def assms(1) auth_fails_def by (auto simp: Let_def)
qed

lemma forward_headers_open:
  assumes "room c = None"
  shows "\<exists>relayed err rest tail.
           forward_headers r c n = (c\<lparr>written := written c @ relayed\<rparr>, n + length relayed, err, rest) \<and>
           r = relayed @ tail \<and> (err = None \<longrightarrow> tail = rest) \<and>
           (err = None \<or> err = Some FailedToReadHeaders)"
  using assms
proof (induction r c n rule: forward_headers.induct)
  case (1 reader clientConn bytesWritten)
  show ?case
  proof (cases "ReadString reader")
    case None
    then have "forward_headers reader clientConn bytesWritten =
        (clientConn\<lparr>written := written clientConn @ []\<rparr>, bytesWritten + length ([]::string),
         Some FailedToReadHeaders, [])"
      by (subst forward_headers.simps) simp
    then show ?thesis by (intro exI[of _ "[]"] exI[of _ "Some FailedToReadHeaders"]
          exI[of _ "[]"] exI[of _ reader]) simp
  next
    case (Some x)
    obtain line reader' where x: "x = (line, reader')" by (cases x)
    note rs = Some[unfolded x]
    note sp = ReadString_split[OF rs]
    let ?c1 = "clientConn\<lparr>written := written clientConn @ line\<rparr>"
    have w: "writeAll clientConn line 0 = (?c1, length line, False)"
      by (rule writeAll_open[OF "1.prems"])
    show ?thesis
    proof (cases "line = [CHR 0x0D, CHR 0x0A] \<or> line = [CHR 0x0A]")
      case True
      then have "forward_headers reader clientConn bytesWritten =
          (?c1, bytesWritten + length line, None, reader')"
        by (subst forward_headers.simps) (simp add: rs w)
      with sp show ?thesis
        by (intro exI[of _ line] exI[of _ None] exI[of _ reader'] exI[of _ reader']) simp
    next
      case False
      then have eq: "forward_headers reader clientConn bytesWritten =
          forward_headers reader' ?c1 (bytesWritten + length line)"
        by (subst forward_headers.simps) (simp add: rs w)
      have "room ?c1 = None" using "1.prems" by simp
      from "1.IH"[OF rs refl w[symmetric] refl _ False this]
      obtain relayed err rest tail where
        ih: "forward_headers reader' ?c1 (bytesWritten + length line) =
              (?c1\<lparr>written := written ?c1 @ relayed\<rparr>, bytesWritten + length line + length relayed, err, rest)"
          "reader' = relayed @ tail" "err = None \<longrightarrow> tail = rest"
          "err = None \<or> err = Some FailedToReadHeaders"
        by auto
      from ih sp show ?thesis
        unfolding eq
        by (intro exI[of _ "line @ relayed"] exI[of _ err] exI[of _ rest] exI[of _ tail]) simp
    qed
  qed
qed

lemma streamBody_open:
  assumes "room c = None"
  shows "streamBody r e c n =
           (c\<lparr>written := written c @ r\<rparr>, n + length r,
            case e of EOF \<Rightarrow> None | IOError \<Rightarrow> Some UpstreamReadError)"
  using assms
proof (induction r e c n rule: streamBody.induct)
  case (1 reader ending clientConn totalBytes)
  show ?case
  proof (cases "take readBufferSize reader = []")
    case True
    then have "reader = []" by (simp add: readBufferSize_def)
    then show ?thesis by (subst streamBody.simps) (simp split: io_end.splits)
  next
    case False
    let ?chunk = "take readBufferSize reader"
    let ?c1 = "clientConn\<lparr>written := written clientConn @ ?chunk\<rparr>"
    have w: "writeAll clientConn ?chunk 0 = (?c1, length ?chunk, False)"
      by (rule writeAll_open[OF "1.prems"])
    have "room ?c1 = None" using "1.prems" by simp
    from "1.IH"[OF False w[symmetric] refl _ this]
    have ih: "streamBody (drop readBufferSize reader) ending ?c1 (totalBytes + length ?chunk) =
         (?c1\<lparr>written := written ?c1 @ drop readBufferSize reader\<rparr>,
          totalBytes + length ?chunk + length (drop readBufferSize reader),
          case ending of EOF \<Rightarrow> None | IOError \<Rightarrow> Some UpstreamReadError)"
      by simp
    have "length ?chunk + length (drop readBufferSize reader) = length reader"
      by (simp add: min_def)
    with False ih show ?thesis
      by (subst streamBody.simps) (simp add: w add.assoc del: length_take length_drop)
  qed
qed

lemma forwardResponse_open:
  assumes "room c = None"
  shows "\<exists>code relayed err tail.
           forwardResponse r e c = (code, length relayed, err, c\<lparr>written := written c @ relayed\<rparr>) \<and>
           r = relayed @ tail \<and>
           (err = None \<longrightarrow> tail = [] \<and> e = EOF) \<and>
           (err = Some FailedToReadStatusLine \<longrightarrow> relayed = []) \<and>
           (err = Some UpstreamReadError \<longrightarrow> tail = [] \<and> e = IOError) \<and>
           err \<in> {None, Some FailedToReadStatusLine, Some FailedToReadHeaders,
                  Some UpstreamReadError}"
proof (cases "ReadString r")
  case None
  then have "forwardResponse r e c = (0, length ([]::string), Some FailedToReadStatusLine,
      c\<lparr>written := written c @ []\<rparr>)"
    by (simp add: forwardResponse_def)
  then show ?thesis
    by (intro exI[of _ 0] exI[of _ "[]"] exI[of _ "Some FailedToReadStatusLine"] exI[of _ r]) simp
next
  case (Some x)
  obtain statusLine r1 where x: "x = (statusLine, r1)" by (cases x)
  note rs = Some[unfolded x]
  note sp = ReadString_split[OF rs]
  let ?c1 = "c\<lparr>written := written c @ statusLine\<rparr>"
  have w: "writeAll c statusLine 0 = (?c1, length statusLine, False)"
    by (rule writeAll_open[OF assms])
  have o1: "room ?c1 = None" using assms by simp
  from forward_headers_open[OF o1, of r1 "length statusLine"]
  obtain relayed err rest tail where
    fh: "forward_headers r1 ?c1 (length statusLine) =
          (?c1\<lparr>written := written ?c1 @ relayed\<rparr>, length statusLine + length relayed, err, rest)"
      "r1 = relayed @ tail" "err = None \<longrightarrow> tail = rest"
      "err = None \<or> err = Some FailedToReadHeaders"
    by blast
  let ?c2 = "?c1\<lparr>written := written ?c1 @ relayed\<rparr>"
  show ?thesis
  proof (cases err)
    case (Some er)
    with fh(4) have er: "er = FailedToReadHeaders" by simp
    have "forwardResponse r e c =
        (status_of_line statusLine, length (statusLine @ relayed), Some FailedToReadHeaders,
         c\<lparr>written := written c @ (statusLine @ relayed)\<rparr>)"
      by (simp add: forwardResponse_def rs w fh(1) Some er Let_def)
    with sp fh(2) show ?thesis
      by (intro exI[of _ "status_of_line statusLine"] exI[of _ "statusLine @ relayed"]
          exI[of _ "Some FailedToReadHeaders"] exI[of _ tail]) simp
  next
    case None
    with fh(3) have t: "tail = rest" by simp
    have o2: "room ?c2 = None" using assms by simp
    note sb = streamBody_open[OF o2, of rest e 0, simplified]
    let ?err = "case e of EOF \<Rightarrow> None | IOError \<Rightarrow> Some UpstreamReadError"
    have "forwardResponse r e c =
        (status_of_line statusLine, length (statusLine @ relayed @ rest), ?err,
         c\<lparr>written := written c @ (statusLine @ relayed @ rest)\<rparr>)"
      by (simp add: forwardResponse_def rs w fh(1) None sb Let_def)
    with sp fh(2) t show ?thesis
      by (intro exI[of _ "status_of_line statusLine"] exI[of _ "statusLine @ relayed @ rest"]
          exI[of _ ?err] exI[of _ "[]"]) (simp split: io_end.splits)
  qed
qed

lemma ForwardRequest_open:
  assumes "room c = None"
  shows "\<exists>relayed tail.
           client_after (ForwardRequest url_Parse req keys up c) = c\<lparr>written := written c @ relayed\<rparr> \<and>
           bytesDownstream (ForwardRequest url_Parse req keys up c) = length relayed \<and>
           from_upstream up = relayed @ tail \<and>
           (forward_err (ForwardRequest url_Parse req keys up c) \<in>
              {Some FailedToConnect, Some FailedToSendRequest, Some FailedToReadStatusLine}
            \<longrightarrow> relayed = []) \<and>
           (forward_err (ForwardRequest url_Parse req keys up c) = None
            \<longrightarrow> tail = [] \<and> upstream_end up = EOF)"
proof (cases "dial_ok up")
  case False
  then show ?thesis
    by (intro exI[of _ "[]"] exI[of _ "from_upstream up"]) (simp add: ForwardRequest_def)
next
  case True
  obtain uc sent err where w: "writeAll (to_upstream up) (SerializeRequest url_Parse req keys) 0
      = (uc, sent, err)"
    by (cases "writeAll (to_upstream up) (SerializeRequest url_Parse req keys) 0") auto
  show ?thesis
  proof (cases err)
    case True
    with \<open>dial_ok up\<close> w show ?thesis
      by (intro exI[of _ "[]"] exI[of _ "from_upstream up"]) (simp add: ForwardRequest_def)
  next
    case False
    from forwardResponse_open[OF assms, of "from_upstream up" "upstream_end up"]
    obtain code relayed err2 tail where
      fr: "forwardResponse (from_upstream up) (upstream_end up) c =
             (code, length relayed, err2, c\<lparr>written := written c @ relayed\<rparr>)"
        "from_upstream up = relayed @ tail"
        "err2 = None \<longrightarrow> tail = [] \<and> upstream_end up = EOF"
        "err2 = Some FailedToReadStatusLine \<longrightarrow> relayed = []"
        "err2 = Some UpstreamReadError \<longrightarrow> tail = [] \<and> upstream_end up = IOError"
        "err2 \<in> {None, Some FailedToReadStatusLine, Some FailedToReadHeaders,
                  Some UpstreamReadError}"
      by blast
    have R: "ForwardRequest url_Parse req keys up c =
        \<lparr>statusCode = code, bytesUpstream = sent, bytesDownstream = length relayed,
                     forward_err = err2, client_after = c\<lparr>written := written c @ relayed\<rparr>,
                     upstream_after = uc\<rparr>"
      using \<open>dial_ok up\<close> w False by (simp add: ForwardRequest_def fr(1))
    from fr(2,3,4,6) have "client_after (ForwardRequest url_Parse req keys up c) =
             c\<lparr>written := written c @ relayed\<rparr> \<and>
           bytesDownstream (ForwardRequest url_Parse req keys up c) = length relayed \<and>
           from_upstream up = relayed @ tail \<and>
           (forward_err (ForwardRequest url_Parse req keys up c) \<in>
              {Some FailedToConnect, Some FailedToSendRequest, Some FailedToReadStatusLine}
            \<longrightarrow> relayed = []) \<and>
           (forward_err (ForwardRequest url_Parse req keys up c) = None
            \<longrightarrow> tail = [] \<and> upstream_end up = EOF)"
      unfolding R by auto
    then show ?thesis by (intro exI[of _ relayed] exI[of _ tail])
  qed
qed

text \<open>
  Claim C8, as amended. On a client connection that takes the bytes, every error response
  that \<open>handleConnection\<close> sends with \<open>sendErrorResponse\<close> is the status line,
  \<open>Content-Type: text/plain\<close>, \<open>Content-Length\<close> with the length of the body,
  \<open>Connection: close\<close>, an empty line and the body \<open><code> <reason>\<close>: 400 on a parse
  failure, 407 when the authentication fails, 501 for \<open>CONNECT\<close> with tunneling off, 403 for
  a blocked host, and 502, after whatever was already relayed, when forwarding fails. The
  502 that \<open>HandleCONNECT\<close> writes when the dial fails is the status line and an empty line,
  with no header and no body.
\<close>

theorem error_response_format:
  assumes "room c = None"
  shows "(isl (ParseHTTPRequest url_Parse reader) \<longrightarrow>
            written (out_client (handleConnection url_Parse cfg flt cache h w reader c)) =
            written c @ error_response 400 ''Bad Request'') \<and>
         (\<forall>req reader'. ParseHTTPRequest url_Parse reader = Inr (req, reader') \<longrightarrow>
            (auth_fails cfg req \<longrightarrow>
               written (out_client (handleConnection url_Parse cfg flt cache h w reader c)) =
               written c @ error_response 407 ''Proxy Authentication Required'') \<and>
            (\<not> auth_fails cfg req \<and> IsConnect req \<and> \<not> EnableConnectTunnel cfg \<longrightarrow>
               written (out_client (handleConnection url_Parse cfg flt cache h w reader c)) =
               written c @ error_response 501 ''Not Implemented'') \<and>
            (\<not> auth_fails cfg req \<and> (IsConnect req \<longrightarrow> EnableConnectTunnel cfg) \<and>
             fst (IsBlocked flt (Host req)) \<longrightarrow>
               written (out_client (handleConnection url_Parse cfg flt cache h w reader c)) =
               written c @ error_response 403 ''Forbidden'') \<and>
            (\<not> auth_fails cfg req \<and> \<not> IsConnect req \<and> \<not> fst (IsBlocked flt (Host req)) \<and>
             \<not> cache_hit cache w req \<and>
             forward_err (ForwardRequest url_Parse req (header_order w) (upstream_of w) c) \<noteq> None \<longrightarrow>
               written (out_client (handleConnection url_Parse cfg flt cache h w reader c)) =
               written (client_after (ForwardRequest url_Parse req (header_order w) (upstream_of w) c))
                 @ error_response 502 ''Bad Gateway'') \<and>
            (\<not> auth_fails cfg req \<and> IsConnect req \<and> EnableConnectTunnel cfg \<and>
             \<not> fst (IsBlocked flt (Host req)) \<and> \<not> dial_ok (upstream_of w) \<longrightarrow>
               written (out_client (handleConnection url_Parse cfg flt cache h w reader c)) =
               written c @ bare_502))"
proof (intro conjI allI impI)
  let ?out = "handleConnection url_Parse cfg flt cache h w reader c"
  {
    assume "isl (ParseHTTPRequest url_Parse reader)"
    then obtain e where "ParseHTTPRequest url_Parse reader = Inl e"
      by (cases "ParseHTTPRequest url_Parse reader") auto
    then show "written (out_client ?out) = written c @ error_response 400 ''Bad Request''"
      by (simp add: handleConnection_def sendErrorResponse_open[OF assms])
  }
  fix req reader'
  assume p: "ParseHTTPRequest url_Parse reader = Inr (req, reader')"
  {
    assume "auth_fails cfg req"
    then show "written (out_client ?out) =
        written c @ error_response 407 ''Proxy Authentication Required''"
      unfolding handleConnection_def p auth_fails_def
      by (simp add: sendErrorResponse_open[OF assms])
  }
  {
    assume "\<not> auth_fails cfg req \<and> IsConnect req \<and> \<not> EnableConnectTunnel cfg"
    then show "written (out_client ?out) = written c @ error_response 501 ''Not Implemented''"
      unfolding handleConnection_def p auth_fails_def handle_connect_def
      by (auto simp: sendErrorResponse_open[OF assms])
  }
  {
    assume a: "\<not> auth_fails cfg req \<and> (IsConnect req \<longrightarrow> EnableConnectTunnel cfg) \<and>
             fst (IsBlocked flt (Host req))"
    then obtain rule where b: "IsBlocked flt (Host req) = (True, rule)"
      by (cases "IsBlocked flt (Host req)") auto
    from a show "written (out_client ?out) = written c @ error_response 403 ''Forbidden''"
      unfolding handleConnection_def p auth_fails_def handle_connect_def
      by (auto simp: b sendErrorResponse_open[OF assms])
  }
  {
    let ?r = "ForwardRequest url_Parse req (header_order w) (upstream_of w) c"
    assume a: "\<not> auth_fails cfg req \<and> \<not> IsConnect req \<and> \<not> fst (IsBlocked flt (Host req)) \<and>
             \<not> cache_hit cache w req \<and> forward_err ?r \<noteq> None"
    then have f: "?out = handle_forward url_Parse cache h w req c"
      by (intro handleConnection_forward[OF p]) simp_all
    from a obtain e where e: "forward_err ?r = Some e" by auto
    from ForwardRequest_open[OF assms, of url_Parse req "header_order w" "upstream_of w"]
    have "room (client_after ?r) = None" using assms by auto
    then show "written (out_client ?out) = written (client_after ?r) @ error_response 502 ''Bad Gateway''"
      unfolding f handle_forward_def Let_def e by (simp add: sendErrorResponse_open)
  }
  {
    assume a: "\<not> auth_fails cfg req \<and> IsConnect req \<and> EnableConnectTunnel cfg \<and>
             \<not> fst (IsBlocked flt (Host req)) \<and> \<not> dial_ok (upstream_of w)"
    then obtain rule where b: "IsBlocked flt (Host req) = (False, rule)"
      by (cases "IsBlocked flt (Host req)") auto
    from a have h: "HandleCONNECT req (upstream_of w) c =
        (c\<lparr>written := written c @ bare_502\<rparr>, Some FailedToConnect)"
      by (intro HandleCONNECT_unreachable[OF _ assms]) simp
    from a show "written (out_client ?out) = written c @ bare_502"
      unfolding handleConnection_def p auth_fails_def handle_connect_def
      by (auto simp: b h)
  }
qed




text \<open>
  Claim C8 as stated fails for the 502 of a failed \<open>CONNECT\<close> dial.
\<close>

theorem connect_dial_failure_counterexample:
  "written (out_client (handleConnection plain_url_Parse open_config no_rules None zero_heap
      (world_with unreachable_upstream) connect_api_request open_conn))
     = ''HTTP/1.1 502 Bad Gateway'' @ crlf @ crlf \<and>
   written (out_client (handleConnection plain_url_Parse open_config no_rules None zero_heap
      (world_with unreachable_upstream) connect_api_request open_conn))
     \<noteq> error_response 502 ''Bad Gateway''"
  by code_simp


lemma connect_api_parsed:
  "case ParseHTTPRequest plain_url_Parse connect_api_request of
     Inl e \<Rightarrow> False
   | Inr (req, r) \<Rightarrow> IsConnect req \<and> Host req = ''api.test'' \<and> Port req = 443 \<and>
       Method req = ''CONNECT'' \<and> RequestTarget req = ''api.test:443'' \<and>
       r = ''Proxy-Authorization: secret'' @ crlf @ crlf"
  by code_simp

lemma portless_connect_fails:
  "isl (ParseHTTPRequest plain_url_Parse portless_connect_request)"
  by code_simp

text \<open>
  A \<open>CONNECT\<close> request that sends the very token that is configured, and still gets 407;
  and one with no port in its target, which gets 400.
\<close>

theorem connect_with_token_always_407_witness:
  "AuthToken token_config \<noteq> [] \<and>
   (\<exists>req r. ParseHTTPRequest plain_url_Parse connect_api_request = Inr (req, r) \<and>
      IsConnect req \<and> r = ''Proxy-Authorization: secret'' @ crlf @ crlf \<and>
      Headers req = Map.empty) \<and>
   out_log (handleConnection plain_url_Parse token_config no_rules None zero_heap
              (world_with ok_upstream) connect_api_request open_conn) =
     [\<lparr>Timestamp = 0, ClientIP = ''10.0.0.7'', ClientPort = 50000,
       DestinationHost = ''api.test'', DestinationPort = 443, Method_l = ''CONNECT'',
       RequestTarget_l = ''api.test:443'', Action = ''AUTH_FAILED'',
       UpstreamStatus = 407, BytesUpstream = 0, BytesDownstream = 0,
       BlockedRule = Note []\<rparr>] \<and>
   written (out_client (handleConnection plain_url_Parse token_config no_rules None zero_heap
              (world_with ok_upstream) connect_api_request open_conn)) =
     error_response 407 ''Proxy Authentication Required'' \<and>
   isl (ParseHTTPRequest plain_url_Parse portless_connect_request) \<and>
   written (out_client (handleConnection plain_url_Parse token_config no_rules None zero_heap
              (world_with ok_upstream) portless_connect_request open_conn)) =
     error_response 400 ''Bad Request'' \<and>
   map Action (out_log (handleConnection plain_url_Parse token_config no_rules None zero_heap
              (world_with ok_upstream) portless_connect_request open_conn)) = [''ERROR'']"
proof -
  have t: "AuthToken token_config \<noteq> []" by (simp add: token_config_def)
  from connect_api_parsed obtain req r where
    p: "ParseHTTPRequest plain_url_Parse connect_api_request = Inr (req, r)"
    and f: "IsConnect req \<and> Host req = ''api.test'' \<and> Port req = 443 \<and>
       Method req = ''CONNECT'' \<and> RequestTarget req = ''api.test:443'' \<and>
       r = ''Proxy-Authorization: secret'' @ crlf @ crlf"
    by (rule sum_case_prodE)
  from f have c: "IsConnect req" by simp
  from p c have pc: "ParseHTTPRequest plain_url_Parse connect_api_request = Inr (req, r) \<and>
      IsConnect req"
    by simp
  have o: "room open_conn = None" "written open_conn = []" by (simp_all add: open_conn_def)
  note T0 = connect_with_token_always_407[OF t, where url_Parse = plain_url_Parse
      and flt = no_rules and cache = None and h = zero_heap and w = "world_with ok_upstream"
      and c = open_conn]
  note T = T0[where reader = connect_api_request, THEN conjunct1, THEN spec, THEN spec, THEN mp,
      OF pc]
  note T2 = T[THEN conjunct2, THEN conjunct1]
  note T6 = T[THEN conjunct2, THEN conjunct2, THEN conjunct2, THEN conjunct2, THEN conjunct2,
      THEN conjunct1]
  note T7 = T[THEN conjunct2, THEN conjunct2, THEN conjunct2, THEN conjunct2, THEN conjunct2,
      THEN conjunct2, THEN conjunct1]
  from T2 have h: "Headers req = Map.empty" .
  from T7 have l: "out_log (handleConnection plain_url_Parse token_config no_rules None zero_heap
              (world_with ok_upstream) connect_api_request open_conn) =
           [\<lparr>Timestamp = time_now (world_with ok_upstream),
             ClientIP = clientIP (world_with ok_upstream),
             ClientPort = clientPort (world_with ok_upstream),
             DestinationHost = Host req, DestinationPort = Port req, Method_l = ''CONNECT'',
             RequestTarget_l = RequestTarget req, Action = ''AUTH_FAILED'',
             UpstreamStatus = 407, BytesUpstream = 0, BytesDownstream = 0,
             BlockedRule = Note []\<rparr>]" .
  from T6[THEN mp, OF o(1)] have w: "written (out_client (handleConnection plain_url_Parse
              token_config no_rules None zero_heap (world_with ok_upstream) connect_api_request
              open_conn)) =
            error_response 407 ''Proxy Authentication Required''"
    unfolding o(2) by simp
  have 1: "\<exists>req r. ParseHTTPRequest plain_url_Parse connect_api_request = Inr (req, r) \<and>
      IsConnect req \<and> r = ''Proxy-Authorization: secret'' @ crlf @ crlf \<and>
      Headers req = Map.empty"
    using p f h by (intro exI[of _ req] exI[of _ r]) simp
  have 2: "out_log (handleConnection plain_url_Parse token_config no_rules None zero_heap
              (world_with ok_upstream) connect_api_request open_conn) =
     [\<lparr>Timestamp = 0, ClientIP = ''10.0.0.7'', ClientPort = 50000,
       DestinationHost = ''api.test'', DestinationPort = 443, Method_l = ''CONNECT'',
       RequestTarget_l = ''api.test:443'', Action = ''AUTH_FAILED'',
       UpstreamStatus = 407, BytesUpstream = 0, BytesDownstream = 0,
       BlockedRule = Note []\<rparr>]"
    unfolding l using f by (simp add: world_with_def)
  from portless_connect_fails obtain err where
    q: "ParseHTTPRequest plain_url_Parse portless_connect_request = Inl err"
    by (cases "ParseHTTPRequest plain_url_Parse portless_connect_request") auto
  note U = T0[where reader = portless_connect_request, THEN conjunct2, THEN spec, THEN mp, OF q]
  have 3: "written (out_client (handleConnection plain_url_Parse token_config no_rules None
              zero_heap (world_with ok_upstream) portless_connect_request open_conn)) =
     error_response 400 ''Bad Request''"
    unfolding U[THEN conjunct1] by (simp add: delivered_def o)
  have 4: "map Action (out_log (handleConnection plain_url_Parse token_config no_rules None
              zero_heap (world_with ok_upstream) portless_connect_request open_conn)) = [''ERROR'']"
    unfolding U[THEN conjunct2] by simp
  from t 1 2 w portless_connect_fails 3 4 show ?thesis by (intro conjI)
qed

text \<open>
  Claim C10 as stated fails for a \<open>CONNECT\<close> request that the parser rejects: the target
  has no port, the request is answered with 400 and logged \<open>ERROR\<close>, and the token is never
  looked at.
\<close>

theorem malformed_connect_counterexample:
  "AuthToken token_config \<noteq> [] \<and>
   (case ReadString portless_connect_request of
      None \<Rightarrow> False
    | Some (l, r) \<Rightarrow> well_formed_line l \<and> connect_line l) \<and>
   written (out_client (handleConnection plain_url_Parse token_config no_rules None zero_heap
      (world_with ok_upstream) portless_connect_request open_conn))
     = error_response 400 ''Bad Request'' \<and>
   map Action (out_log (handleConnection plain_url_Parse token_config no_rules None zero_heap
      (world_with ok_upstream) portless_connect_request open_conn)) = [''ERROR''] \<and>
   map UpstreamStatus (out_log (handleConnection plain_url_Parse token_config no_rules None
      zero_heap (world_with ok_upstream) portless_connect_request open_conn)) = [400]"
  by code_simp





lemma malformed_request_fails: "isl (ParseHTTPRequest plain_url_Parse malformed_request)"
  by code_simp

lemma get_request_no_token:
  "case ParseHTTPRequest plain_url_Parse get_request of
     Inl e \<Rightarrow> False
   | Inr (req, r) \<Rightarrow> auth_fails token_config req"
  by code_simp

lemma connect_no_tunnel:
  "case ParseHTTPRequest plain_url_Parse connect_api_request of
     Inl e \<Rightarrow> False
   | Inr (req, r) \<Rightarrow>
       \<not> auth_fails no_tunnel_config req \<and> IsConnect req \<and>
       \<not> EnableConnectTunnel no_tunnel_config"
  by code_simp

lemma get_request_blocked:
  "case ParseHTTPRequest plain_url_Parse get_request of
     Inl e \<Rightarrow> False
   | Inr (req, r) \<Rightarrow>
       \<not> auth_fails open_config req \<and> (IsConnect req \<longrightarrow> EnableConnectTunnel open_config) \<and>
       fst (IsBlocked example_rules (Host req))"
  by code_simp

lemma get_request_broken:
  "case ParseHTTPRequest plain_url_Parse get_request of
     Inl e \<Rightarrow> False
   | Inr (req, r) \<Rightarrow>
       (\<not> auth_fails open_config req \<and> \<not> IsConnect req \<and>
        \<not> fst (IsBlocked no_rules (Host req)) \<and>
        \<not> cache_hit None (world_with broken_upstream) req \<and>
        forward_err (ForwardRequest plain_url_Parse req (header_order (world_with broken_upstream))
          (upstream_of (world_with broken_upstream)) open_conn) \<noteq> None) \<and>
       written (client_after (ForwardRequest plain_url_Parse req
          (header_order (world_with broken_upstream))
          (upstream_of (world_with broken_upstream)) open_conn)) = ''HTTP/1.1 200 OK'' @ crlf"
  by code_simp

lemma connect_unreachable:
  "case ParseHTTPRequest plain_url_Parse connect_api_request of
     Inl e \<Rightarrow> False
   | Inr (req, r) \<Rightarrow>
       \<not> auth_fails open_config req \<and> IsConnect req \<and> EnableConnectTunnel open_config \<and>
       \<not> fst (IsBlocked no_rules (Host req)) \<and>
       \<not> dial_ok (upstream_of (world_with unreachable_upstream))"
  by code_simp

text \<open>One concrete run for each of the six kinds of error response.\<close>

theorem error_response_format_witness:
  "room open_conn = None \<and>
   isl (ParseHTTPRequest plain_url_Parse malformed_request) \<and>
   written (out_client (handleConnection plain_url_Parse open_config no_rules None zero_heap
      (world_with ok_upstream) malformed_request open_conn)) =
     error_response 400 ''Bad Request'' \<and>
   written (out_client (handleConnection plain_url_Parse token_config no_rules None zero_heap
      (world_with ok_upstream) get_request open_conn)) =
     error_response 407 ''Proxy Authentication Required'' \<and>
   written (out_client (handleConnection plain_url_Parse no_tunnel_config no_rules None zero_heap
      (world_with ok_upstream) connect_api_request open_conn)) =
     error_response 501 ''Not Implemented'' \<and>
   written (out_client (handleConnection plain_url_Parse open_config example_rules None zero_heap
      (world_with ok_upstream) get_request open_conn)) =
     error_response 403 ''Forbidden'' \<and>
   written (out_client (handleConnection plain_url_Parse open_config no_rules None zero_heap
      (world_with broken_upstream) get_request open_conn)) =
     (''HTTP/1.1 200 OK'' @ crlf) @ error_response 502 ''Bad Gateway'' \<and>
   written (out_client (handleConnection plain_url_Parse open_config no_rules None zero_heap
      (world_with unreachable_upstream) connect_api_request open_conn)) =
     bare_502"
proof -
  have o: "room open_conn = None" and e: "written open_conn = []"
    by (simp_all add: open_conn_def)
  note T = error_response_format[OF o, of plain_url_Parse]
  note T1 = T[THEN conjunct1, THEN mp]
  note T2 = T[THEN conjunct2, THEN spec, THEN spec, THEN mp]
  have 1: "written (out_client (handleConnection plain_url_Parse open_config no_rules None zero_heap
      (world_with ok_upstream) malformed_request open_conn)) = error_response 400 ''Bad Request''"
    using T1[OF malformed_request_fails] by (simp add: e)
  have 2: "written (out_client (handleConnection plain_url_Parse token_config no_rules None zero_heap
      (world_with ok_upstream) get_request open_conn)) =
     error_response 407 ''Proxy Authentication Required''"
  proof -
    from get_request_no_token obtain req r where
      p: "ParseHTTPRequest plain_url_Parse get_request = Inr (req, r)"
      and f: "auth_fails token_config req"
      by (rule sum_case_prodE)
    from T2[OF p, THEN conjunct1, THEN mp, OF f] show ?thesis by (simp add: e)
  qed
  have 3: "written (out_client (handleConnection plain_url_Parse no_tunnel_config no_rules None zero_heap
      (world_with ok_upstream) connect_api_request open_conn)) =
     error_response 501 ''Not Implemented''"
  proof -
    from connect_no_tunnel obtain req r where
      p: "ParseHTTPRequest plain_url_Parse connect_api_request = Inr (req, r)"
      and f: "\<not> auth_fails no_tunnel_config req \<and> IsConnect req \<and>
       \<not> EnableConnectTunnel no_tunnel_config"
      by (rule sum_case_prodE)
    from T2[OF p, THEN conjunct2, THEN conjunct1, THEN mp, OF f] show ?thesis by (simp add: e)
  qed
  have 4: "written (out_client (handleConnection plain_url_Parse open_config example_rules None zero_heap
      (world_with ok_upstream) get_request open_conn)) = error_response 403 ''Forbidden''"
  proof -
    from get_request_blocked obtain req r where
      p: "ParseHTTPRequest plain_url_Parse get_request = Inr (req, r)"
      and f: "\<not> auth_fails open_config req \<and> (IsConnect req \<longrightarrow> EnableConnectTunnel open_config) \<and>
       fst (IsBlocked example_rules (Host req))"
      by (rule sum_case_prodE)
    from T2[OF p, THEN conjunct2, THEN conjunct2, THEN conjunct1, THEN mp, OF f]
    show ?thesis by (simp add: e)
  qed
  have 5: "written (out_client (handleConnection plain_url_Parse open_config no_rules None zero_heap
      (world_with broken_upstream) get_request open_conn)) =
     (''HTTP/1.1 200 OK'' @ crlf) @ error_response 502 ''Bad Gateway''"
  proof -
    from get_request_broken obtain req r where
      p: "ParseHTTPRequest plain_url_Parse get_request = Inr (req, r)"
      and f: "(\<not> auth_fails open_config req \<and> \<not> IsConnect req \<and>
        \<not> fst (IsBlocked no_rules (Host req)) \<and>
        \<not> cache_hit None (world_with broken_upstream) req \<and>
        forward_err (ForwardRequest plain_url_Parse req (header_order (world_with broken_upstream))
          (upstream_of (world_with broken_upstream)) open_conn) \<noteq> None) \<and>
       written (client_after (ForwardRequest plain_url_Parse req
          (header_order (world_with broken_upstream))
          (upstream_of (world_with broken_upstream)) open_conn)) = ''HTTP/1.1 200 OK'' @ crlf"
      by (rule sum_case_prodE)
    from T2[OF p, THEN conjunct2, THEN conjunct2, THEN conjunct2, THEN conjunct1, THEN mp,
        OF f[THEN conjunct1]] f[THEN conjunct2]
    show ?thesis by simp
  qed
  have 6: "written (out_client (handleConnection plain_url_Parse open_config no_rules None zero_heap
      (world_with unreachable_upstream) connect_api_request open_conn)) = bare_502"
  proof -
    from connect_unreachable obtain req r where
      p: "ParseHTTPRequest plain_url_Parse connect_api_request = Inr (req, r)"
      and f: "\<not> auth_fails open_config req \<and> IsConnect req \<and> EnableConnectTunnel open_config \<and>
       \<not> fst (IsBlocked no_rules (Host req)) \<and>
       \<not> dial_ok (upstream_of (world_with unreachable_upstream))"
      by (rule sum_case_prodE)
    from T2[OF p, THEN conjunct2, THEN conjunct2, THEN conjunct2, THEN conjunct2, THEN mp, OF f]
    show ?thesis by (simp add: e)
  qed
  from o malformed_request_fails 1 2 3 4 5 6 show ?thesis by (intro conjI)
qed

end
